theory Spec2Isabelle
  imports Main "HOL-Library.Multiset" "HOL-Library.Product_Lexorder"
begin

unbundle bit_operations_syntax

section \<open>C int\<close>

text \<open>
  The type \<open>int\<close> of the code has 32 bits: its values are the integers from \<open>- 2^31\<close> to
  \<open>2^31 - 1\<close> (\<open>int_ok\<close>).  A sum or a difference that lies outside comes out of the
  compiled code reduced modulo \<open>2^32\<close> into that range (\<open>wrap\<close>).  \<open>c_add\<close> and \<open>c_sub\<close>
  are the operations \<open>+\<close> and \<open>-\<close> of the code on \<open>int\<close>.
\<close>

definition int_ok :: "int \<Rightarrow> bool" where
  "int_ok v \<longleftrightarrow> - (2 ^ 31) \<le> v \<and> v < 2 ^ 31"

definition wrap :: "int \<Rightarrow> int" where
  "wrap v = (v + 2 ^ 31) mod 2 ^ 32 - 2 ^ 31"

definition c_add :: "int \<Rightarrow> int \<Rightarrow> int" where
  "c_add a b = wrap (a + b)"

definition c_sub :: "int \<Rightarrow> int \<Rightarrow> int" where
  "c_sub a b = wrap (a - b)"

section \<open>Rectangles\<close>

text \<open>
  A \<open>GAME_Rect\<close> has four C \<open>int\<close> fields \<open>x\<close>, \<open>y\<close>, \<open>w\<close>, \<open>h\<close>.  The fields are
  named \<open>rx\<close>, \<open>ry\<close>, \<open>rw\<close>, \<open>rh\<close> here.  A rectangle of the code holds values of \<open>int\<close>;
  where the code adds or subtracts coordinates the model uses \<open>c_add\<close> and \<open>c_sub\<close>.
  The pixels of a rectangle (\<open>covers\<close>, \<open>overlap\<close>) are those of the plane, with
  mathematical integers.
\<close>

record rect =
  rx :: int
  ry :: int
  rw :: int
  rh :: int

definition Rect :: "int \<Rightarrow> int \<Rightarrow> int \<Rightarrow> int \<Rightarrow> rect" where
  "Rect a b c d = \<lparr>rx = a, ry = b, rw = c, rh = d\<rparr>"

text \<open>The test \<open>r.w > 0 && r.h > 0\<close> that the code applies to rectangles.\<close>

definition nondegenerate :: "rect \<Rightarrow> bool" where
  "nondegenerate r \<longleftrightarrow> rw r > 0 \<and> rh r > 0"

text \<open>The pixel \<open>(px, py)\<close> lies in the area of \<open>r\<close>.\<close>

definition covers :: "rect \<Rightarrow> int \<times> int \<Rightarrow> bool" where
  "covers r p \<longleftrightarrow> rx r \<le> fst p \<and> fst p < rx r + rw r \<and> ry r \<le> snd p \<and> snd p < ry r + rh r"

definition overlap :: "rect \<Rightarrow> rect \<Rightarrow> bool" where
  "overlap a b \<longleftrightarrow>
     max (rx a) (rx b) < min (rx a + rw a) (rx b + rw b) \<and>
     max (ry a) (ry b) < min (ry a + rh a) (ry b + rh b)"

fun pairwise_disjoint :: "rect list \<Rightarrow> bool" where
  "pairwise_disjoint [] = True"
| "pairwise_disjoint (r # rs) = ((\<forall>s \<in> set rs. \<not> overlap r s) \<and> pairwise_disjoint rs)"

section \<open>quicksort\<close>

text \<open>
  The array is the list of its first \<open>elements\<close> entries.  The two inner scans of the
  partition loop read \<open>arr[R]\<close> and \<open>arr[L]\<close> before they test \<open>L < R\<close>, as the code does.
\<close>

function scan_down :: "int list \<Rightarrow> int \<Rightarrow> nat \<Rightarrow> nat \<Rightarrow> nat" where
  "scan_down arr piv L R = (if arr ! R \<ge> piv \<and> L < R then scan_down arr piv L (R - 1) else R)"
  by pat_completeness auto
termination
  by (relation "measure (\<lambda>(arr, piv, L, R). R)") auto

declare scan_down.simps [simp del]

function scan_up :: "int list \<Rightarrow> int \<Rightarrow> nat \<Rightarrow> nat \<Rightarrow> nat" where
  "scan_up arr piv L R = (if arr ! L \<le> piv \<and> L < R then scan_up arr piv (L + 1) R else L)"
  by pat_completeness auto
termination
  by (relation "measure (\<lambda>(arr, piv, L, R). R - L)") auto

declare scan_up.simps [simp del]

text \<open>One round of the loop \<open>while (L < R)\<close>: returns the array, \<open>L\<close> and \<open>R\<close>.\<close>

definition part_step :: "int list \<Rightarrow> int \<Rightarrow> nat \<Rightarrow> nat \<Rightarrow> int list \<times> nat \<times> nat" where
  "part_step arr piv L R =
     (let R1 = scan_down arr piv L R;
          arr1 = (if L < R1 then arr[L := arr ! R1] else arr);
          L1 = (if L < R1 then L + 1 else L);
          L2 = scan_up arr1 piv L1 R1;
          arr2 = (if L2 < R1 then arr1[R1 := arr1 ! L2] else arr1);
          R2 = (if L2 < R1 then R1 - 1 else R1)
      in (arr2, L2, R2))"

lemma scan_down_bounds: "L \<le> R \<Longrightarrow> L \<le> scan_down arr piv L R \<and> scan_down arr piv L R \<le> R"
proof (induction arr piv L R rule: scan_down.induct)
  case (1 arr piv L R)
  show ?case
  proof (cases "arr ! R \<ge> piv \<and> L < R")
    case True
    then have "L \<le> R - 1" by auto
    with 1(1) True have "L \<le> scan_down arr piv L (R - 1) \<and> scan_down arr piv L (R - 1) \<le> R - 1"
      by blast
    moreover have "scan_down arr piv L R = scan_down arr piv L (R - 1)"
      using True by (subst scan_down.simps) simp
    ultimately show ?thesis by auto
  next
    case False
    then have "scan_down arr piv L R = R"
      by (subst scan_down.simps) auto
    with 1(2) show ?thesis by simp
  qed
qed

lemma scan_up_bounds: "L \<le> R \<Longrightarrow> L \<le> scan_up arr piv L R \<and> scan_up arr piv L R \<le> R"
proof (induction arr piv L R rule: scan_up.induct)
  case (1 arr piv L R)
  show ?case
  proof (cases "arr ! L \<le> piv \<and> L < R")
    case True
    then have "L + 1 \<le> R" by auto
    with 1(1) True have "L + 1 \<le> scan_up arr piv (L + 1) R \<and> scan_up arr piv (L + 1) R \<le> R"
      by blast
    moreover have "scan_up arr piv L R = scan_up arr piv (L + 1) R"
      using True by (subst scan_up.simps) simp
    ultimately show ?thesis by auto
  next
    case False
    then have "scan_up arr piv L R = L"
      by (subst scan_up.simps) auto
    with 1(2) show ?thesis by simp
  qed
qed

lemma part_step_decreases:
  assumes "L < R" and "part_step arr piv L R = (arr', L', R')"
  shows "L' \<le> R' \<and> R' - L' < R - L \<and> L \<le> L' \<and> R' \<le> R"
proof -
  define R1 where "R1 = scan_down arr piv L R"
  define arr1 where "arr1 = (if L < R1 then arr[L := arr ! R1] else arr)"
  define L1 where "L1 = (if L < R1 then L + 1 else L)"
  define L2 where "L2 = scan_up arr1 piv L1 R1"
  have r1: "L \<le> R1 \<and> R1 \<le> R"
    using scan_down_bounds [of L R arr piv] assms(1) by (simp add: R1_def)
  then have l1: "L1 \<le> R1"
    by (simp add: L1_def)
  have l2: "L1 \<le> L2 \<and> L2 \<le> R1"
    using scan_up_bounds [OF l1, of arr1 piv] by (simp add: L2_def)
  have "part_step arr piv L R = (if L2 < R1 then arr1[R1 := arr1 ! L2] else arr1, L2, if L2 < R1 then R1 - 1 else R1)"
    unfolding part_step_def Let_def R1_def arr1_def L1_def L2_def ..
  with assms(2) have eq: "L' = L2" "R' = (if L2 < R1 then R1 - 1 else R1)"
    by auto
  show ?thesis
    using r1 l1 l2 assms(1) unfolding eq L1_def by (auto split: if_splits)
qed

function part_loop :: "int \<Rightarrow> int list \<times> nat \<times> nat \<Rightarrow> int list \<times> nat" where
  "part_loop piv (arr, L, R) =
     (if L < R then part_loop piv (part_step arr piv L R) else (arr, L))"
  by pat_completeness auto
termination
proof (relation "measure (\<lambda>(piv, arr, L, R). R - L)", goal_cases)
  case 1
  show ?case by simp
next
  case (2 piv arr L R)
  obtain arr' L' R' where ps: "part_step arr piv L R = (arr', L', R')"
    by (cases "part_step arr piv L R") auto
  from part_step_decreases [OF 2 ps] show ?case by (simp add: ps)
qed

declare part_loop.simps [simp del]

text \<open>
  The body of the branch \<open>if (L < R)\<close> up to \<open>arr[L] = piv\<close>, on the segment
  \<open>beg[i] .. end[i] - 1\<close>: returns the array and the final position \<open>L\<close> of the pivot.
\<close>

definition partition_seg :: "int list \<Rightarrow> nat \<Rightarrow> nat \<Rightarrow> int list \<times> nat" where
  "partition_seg arr b e =
     (let piv = arr ! b in
      case part_loop piv (arr, b, e - 1) of (arr', L) \<Rightarrow> (arr'[L := piv], L))"


lemma part_loop_bounds:
  "L \<le> R \<Longrightarrow> part_loop piv (arr, L, R) = (arr', p) \<Longrightarrow> L \<le> p \<and> p \<le> R"
proof (induction piv "(arr, L, R)" arbitrary: arr L R rule: part_loop.induct)
  case (1 piv arr L R)
  show ?case
  proof (cases "L < R")
    case True
    obtain a1 L1 R1 where ps: "part_step arr piv L R = (a1, L1, R1)"
      by (cases "part_step arr piv L R") auto
    from part_step_decreases [OF True ps]
    have b: "L1 \<le> R1" "L \<le> L1" "R1 \<le> R" by auto
    have "part_loop piv (a1, L1, R1) = (arr', p)"
      using 1(3) True ps by (subst (asm) part_loop.simps) simp
    from 1(1) [OF True ps b(1) this] b show ?thesis by auto
  next
    case False
    then have "part_loop piv (arr, L, R) = (arr, L)"
      by (subst part_loop.simps) simp
    with 1(2,3) False show ?thesis by auto
  qed
qed

lemma partition_seg_bounds:
  assumes "b < e" and "partition_seg arr b e = (arr', p)"
  shows "b \<le> p \<and> p < e"
proof -
  obtain a1 where "part_loop (arr ! b) (arr, b, e - 1) = (a1, p)"
    using assms(2) by (auto simp: partition_seg_def Let_def split: prod.splits)
  moreover have "b \<le> e - 1" using assms(1) by auto
  ultimately have "b \<le> p \<and> p \<le> e - 1" by (rule part_loop_bounds [rotated])
  with assms(1) show ?thesis by auto
qed

text \<open>
  The outer loop \<open>while (i >= 0)\<close>.  The arrays \<open>beg\<close> and \<open>end\<close> are the list of the
  pairs \<open>(beg[k], end[k])\<close> for \<open>k = i, i - 1, .., 0\<close>, the entry of index \<open>i\<close> first;
  \<open>i = -1\<close> is the empty list.  After a partition the code stores the two new segments
  (\<open>push_segs\<close>) and swaps them when the upper one is larger, so that the smaller one is
  on top.
\<close>

definition seg_measure :: "(nat \<times> nat) list \<Rightarrow> nat" where
  "seg_measure st = (\<Sum>(b, e) \<leftarrow> st. 2 * (e - b) + 1)"

definition push_segs :: "nat \<Rightarrow> nat \<Rightarrow> nat \<Rightarrow> (nat \<times> nat) list" where
  "push_segs b L e =
     (if int e - int (L + 1) > int L - int b then [(b, L), (L + 1, e)]
      else [(L + 1, e), (b, L)])"

function qs_loop :: "int list \<Rightarrow> (nat \<times> nat) list \<Rightarrow> int list" where
  "qs_loop arr [] = arr"
| "qs_loop arr ((b, e) # st) =
     (if int b < int e - 1 then
        qs_loop (fst (partition_seg arr b e)) (push_segs b (snd (partition_seg arr b e)) e @ st)
      else qs_loop arr st)"
  by pat_completeness auto
termination
proof (relation "measure (\<lambda>(arr, st). seg_measure st)", goal_cases)
  case 1
  show ?case by simp
next
  case (2 arr b e st)
  then have "b < e" by simp
  from partition_seg_bounds [OF this, of arr "fst (partition_seg arr b e)" "snd (partition_seg arr b e)"]
  show ?case
    by (auto simp: seg_measure_def push_segs_def)
next
  case (3 arr b e st)
  show ?case by (simp add: seg_measure_def)
qed

declare qs_loop.simps [simp del]

definition quicksort :: "int list \<Rightarrow> int list" where
  "quicksort arr = qs_loop arr [(0, length arr)]"

section \<open>find and set\_add\<close>

text \<open>
  \<open>find\<close> (named \<open>find_idx\<close> here) returns the first index from \<open>i\<close> on whose entry is
  \<open>x\<close>, or \<open>-1\<close>.  The array is the list of its first \<open>n\<close> entries.
\<close>

function find_idx :: "int list \<Rightarrow> int \<Rightarrow> int \<Rightarrow> int" where
  "find_idx arr x i =
     (if i < int (length arr) then (if arr ! nat i = x then i else find_idx arr x (i + 1))
      else - 1)"
  by pat_completeness auto
termination
  by (relation "measure (\<lambda>(arr, x, i). nat (int (length arr) - i))") auto

declare find_idx.simps [simp del]

text \<open>
  \<open>set_add\<close> appends \<open>x\<close> unless one of the first \<open>n\<close> entries is \<open>x\<close>.  The C function
  returns 1 or 0 and the caller adds it to \<open>n\<close>; here the list grows by one entry or
  stays as it is.
\<close>

definition set_add :: "int list \<Rightarrow> int \<Rightarrow> int list" where
  "set_add arr x = (if x \<in> set arr then arr else arr @ [x])"

section \<open>mk\_disjoint\<close>

text \<open>
  The edge loop: every rectangle of \<open>add\<close>, then of \<open>rm\<close>, adds its four edges.  The sums
  \<open>r.x + r.w\<close> and \<open>r.y + r.h\<close> are sums of \<open>int\<close>.
\<close>

definition add_edges :: "int list \<times> int list \<Rightarrow> rect \<Rightarrow> int list \<times> int list" where
  "add_edges es r =
     (let e0 = set_add (fst es) (rx r);
          e0' = set_add e0 (c_add (rx r) (rw r));
          e1 = set_add (snd es) (ry r);
          e1' = set_add e1 (c_add (ry r) (rh r))
      in (e0', e1'))"

definition get_edges :: "rect list \<Rightarrow> rect list \<Rightarrow> int list \<times> int list" where
  "get_edges add rm = foldl add_edges ([], []) (add @ rm)"

text \<open>
  The grid is the list of its \<open>(n_edges[0] - 1) * (n_edges[1] - 1)\<close> cells.  \<open>mark_rect\<close> is
  the body of the marking loop for one rectangle, with \<open>flag = 2\<close> for \<open>add\<close> and \<open>flag = 1\<close>
  for \<open>rm\<close>.
\<close>

definition cell_index :: "int list \<Rightarrow> int \<Rightarrow> int \<Rightarrow> nat" where
  "cell_index e0 k l = nat ((int (length e0) - 1) * k + l)"

definition mark_cell :: "int list \<Rightarrow> int \<Rightarrow> int \<Rightarrow> int list \<Rightarrow> int \<Rightarrow> int list" where
  "mark_cell e0 flag k grid l = grid[cell_index e0 k l := (grid ! cell_index e0 k l) OR flag]"

definition mark_rect :: "int list \<Rightarrow> int list \<Rightarrow> int \<Rightarrow> int list \<Rightarrow> rect \<Rightarrow> int list" where
  "mark_rect e0 e1 flag grid r =
     (if rw r > 0 \<and> rh r > 0 then
        (let row0 = find_idx e1 (ry r) 0;
             row1 = find_idx e1 (c_add (ry r) (rh r)) row0;
             col0 = find_idx e0 (rx r) 0;
             col1 = find_idx e0 (c_add (rx r) (rw r)) col0
         in foldl (\<lambda>g k. foldl (mark_cell e0 flag k) g [col0..col1 - 1]) grid [row0..row1 - 1])
      else grid)"

definition mk_grid :: "int list \<Rightarrow> int list \<Rightarrow> rect list \<Rightarrow> rect list \<Rightarrow> int list" where
  "mk_grid e0 e1 add rm =
     (let grid0 = replicate (nat ((int (length e0) - 1) * (int (length e1) - 1))) 0;
          grid1 = foldl (mark_rect e0 e1 2) grid0 add
      in foldl (mark_rect e0 e1 1) grid1 rm)"

text \<open>
  The scan keeps \<open>in_rect\<close>, \<open>r_i\<close>, \<open>r_left\<close> and the output list \<open>rs\<close> (here \<open>rs_acc\<close>).  \<open>end_rect\<close> is the
  code that closes the open rectangle at the x-coordinate \<open>right\<close>; the width and the
  height that it passes to \<open>PyRect_New4\<close> are differences of \<open>int\<close>.
\<close>

record scan_state =
  in_rect :: bool
  r_i :: nat
  r_left :: int
  rs_acc :: "rect list"

definition end_rect :: "int list \<Rightarrow> int \<Rightarrow> scan_state \<Rightarrow> scan_state" where
  "end_rect e1 right s =
     (let k = e1 ! r_i s
      in s\<lparr>in_rect := False,
           rs_acc := rs_acc s @
             [Rect (r_left s) k (c_sub right (r_left s)) (c_sub (e1 ! (r_i s + 1)) k)]\<rparr>)"

definition scan_cell :: "int list \<Rightarrow> int list \<Rightarrow> int list \<Rightarrow> nat \<Rightarrow> scan_state \<Rightarrow> nat \<Rightarrow> scan_state" where
  "scan_cell e0 e1 grid i s j =
     (let s1 = (if in_rect s \<and> i \<noteq> r_i s then end_rect e1 (e0 ! (length e0 - 1)) s else s)
      in if grid ! ((length e0 - 1) * i + j) = 2 then
           (if \<not> in_rect s1 then s1\<lparr>in_rect := True, r_i := i, r_left := e0 ! j\<rparr> else s1)
         else if in_rect s1 then end_rect e1 (e0 ! j) s1
         else s1)"

text \<open>
  The loops \<open>for (i = 0; i < n_edges[1] - 1; i++)\<close> and \<open>for (j = 0; j < n_edges[0] - 1; j++)\<close>
  run over \<open>[0..<length e1 - 1]\<close> and \<open>[0..<length e0 - 1]\<close>: with no edge the C bound is
  \<open>-1\<close> and the natural-number bound is \<open>0\<close>, and neither loop runs.
\<close>

definition scan_grid :: "int list \<Rightarrow> int list \<Rightarrow> int list \<Rightarrow> rect list" where
  "scan_grid e0 e1 grid =
     (let s0 = \<lparr>in_rect = False, r_i = 0, r_left = 0, rs_acc = []\<rparr>;
          s = foldl (\<lambda>s i. foldl (scan_cell e0 e1 grid i) s [0..<length e0 - 1]) s0
                [0..<length e1 - 1]
      in rs_acc (if in_rect s then end_rect e1 (e0 ! (length e0 - 1)) s else s))"

definition mk_disjoint :: "rect list \<Rightarrow> rect list \<Rightarrow> rect list" where
  "mk_disjoint add rm =
     (let es = get_edges add rm;
          e0 = quicksort (fst es);
          e1 = quicksort (snd es)
      in scan_grid e0 e1 (mk_grid e0 e1 add rm))"

section \<open>The rectangles the scan is to emit\<close>

text \<open>
  This section follows the description of the output, not the code.  A run of a row is
  a maximal range \<open>a..<b\<close> of columns whose cells all equal 2 (\<open>add\<close> and not \<open>rm\<close>): the
  cell before \<open>a\<close> and the cell at \<open>b\<close>, when they exist, do not.  A run becomes the
  rectangle from the x-edge \<open>a\<close> to the x-edge \<open>b\<close> that is one row high.  The rectangles
  are listed row by row, and within a row by column.
\<close>

definition is_run :: "bool list \<Rightarrow> nat \<Rightarrow> nat \<Rightarrow> bool" where
  "is_run cs a b \<longleftrightarrow>
     a < b \<and> b \<le> length cs \<and> (\<forall>j \<in> {a..<b}. cs ! j) \<and>
     (a = 0 \<or> \<not> cs ! (a - 1)) \<and> (b = length cs \<or> \<not> cs ! b)"

definition all_ranges :: "nat \<Rightarrow> (nat \<times> nat) list" where
  "all_ranges n = concat (map (\<lambda>a. map (\<lambda>b. (a, b)) [a + 1..<n + 1]) [0..<n])"

definition runs_of :: "bool list \<Rightarrow> (nat \<times> nat) list" where
  "runs_of cs = filter (\<lambda>(a, b). is_run cs a b) (all_ranges (length cs))"

definition row_cells :: "int list \<Rightarrow> int list \<Rightarrow> nat \<Rightarrow> bool list" where
  "row_cells e0 grid i = map (\<lambda>j. grid ! ((length e0 - 1) * i + j) = 2) [0..<length e0 - 1]"

definition run_rect :: "int list \<Rightarrow> int list \<Rightarrow> nat \<Rightarrow> nat \<times> nat \<Rightarrow> rect" where
  "run_rect e0 e1 i ab =
     Rect (e0 ! fst ab) (e1 ! i) (e0 ! snd ab - e0 ! fst ab) (e1 ! (i + 1) - e1 ! i)"

definition emit_rows :: "int list \<Rightarrow> int list \<Rightarrow> int list \<Rightarrow> rect list" where
  "emit_rows e0 e1 grid =
     concat (map (\<lambda>i. map (run_rect e0 e1 i) (runs_of (row_cells e0 grid i)))
       [0..<length e1 - 1])"

text \<open>
  The rectangle that the code builds for a run: its position is that of \<open>run_rect\<close>, its
  width and its height are the code's differences of the edges.
\<close>

definition c_run_rect :: "int list \<Rightarrow> int list \<Rightarrow> nat \<Rightarrow> nat \<times> nat \<Rightarrow> rect" where
  "c_run_rect e0 e1 i ab =
     Rect (e0 ! fst ab) (e1 ! i) (c_sub (e0 ! snd ab) (e0 ! fst ab)) (c_sub (e1 ! (i + 1)) (e1 ! i))"

definition c_emit_rows :: "int list \<Rightarrow> int list \<Rightarrow> int list \<Rightarrow> rect list" where
  "c_emit_rows e0 e1 grid =
     concat (map (\<lambda>i. map (c_run_rect e0 e1 i) (runs_of (row_cells e0 grid i)))
       [0..<length e1 - 1])"

section \<open>Rect.clip\<close>

text \<open>
  \<open>fastdraw\<close> calls the method \<open>clip\<close> of \<open>pygame.Rect\<close>, which belongs to the pygame
  library and not to this program.  The definition follows pygame's \<open>rect.c\<close>: \<open>a.clip(b)\<close>
  is the intersection of \<open>a\<close> and \<open>b\<close>, and the rectangle at \<open>a\<close>'s position with size
  \<open>0 \<times> 0\<close> when they do not intersect.
\<close>

definition clip_lo :: "int \<Rightarrow> int \<Rightarrow> int \<Rightarrow> int \<Rightarrow> int option" where
  "clip_lo ax aw bx bw =
     (if ax \<ge> bx \<and> ax < bx + bw then Some ax
      else if bx \<ge> ax \<and> bx < ax + aw then Some bx
      else None)"

definition clip_len :: "int \<Rightarrow> int \<Rightarrow> int \<Rightarrow> int \<Rightarrow> int \<Rightarrow> int option" where
  "clip_len ax aw bx bw lo =
     (if ax + aw > bx \<and> ax + aw \<le> bx + bw then Some (ax + aw - lo)
      else if bx + bw > ax \<and> bx + bw \<le> ax + aw then Some (bx + bw - lo)
      else None)"

definition clip :: "rect \<Rightarrow> rect \<Rightarrow> rect" where
  "clip a b =
     (case clip_lo (rx a) (rw a) (rx b) (rw b) of
        None \<Rightarrow> Rect (rx a) (ry a) 0 0
      | Some x \<Rightarrow>
     (case clip_len (rx a) (rw a) (rx b) (rw b) x of
        None \<Rightarrow> Rect (rx a) (ry a) 0 0
      | Some w \<Rightarrow>
     (case clip_lo (ry a) (rh a) (ry b) (rh b) of
        None \<Rightarrow> Rect (rx a) (ry a) 0 0
      | Some y \<Rightarrow>
     (case clip_len (ry a) (rh a) (ry b) (rh b) y of
        None \<Rightarrow> Rect (rx a) (ry a) 0 0
      | Some h \<Rightarrow> Rect x y w h))))"

section \<open>fastdraw\<close>

text \<open>
  A graphic is an object with the attributes \<open>was_visible\<close>, \<open>visible\<close>,
  \<open>_last_postrot_rect\<close>, \<open>_postrot_rect\<close> and \<open>_dirty\<close> (here \<open>g_dirty\<close>, the name of the
  variable that holds it), and the methods \<open>_pre_draw\<close>, \<open>_opaque_in\<close> and \<open>_draw\<close>.
  \<open>gid\<close> is the identity of the object.  The two visibility attributes are the objects
  \<open>True\<close> and \<open>False\<close>, which the code compares by identity.

  The methods are the caller's code.  A method either raises (\<open>Inl\<close>) and leaves the
  graphic as it is, or returns; \<open>_pre_draw\<close> and \<open>_draw\<close> return the graphic's new state,
  \<open>_opaque_in\<close> returns whether its result equals \<open>True\<close>.  Every call of a method is
  recorded in \<open>calls\<close>, in order, with the state of the graphic it is called on and its
  arguments.  Graphics are distinct objects: each occurs once in
  \<open>graphics\<close>, the list of the layers' graphics in the order of \<open>layers\<close>.
\<close>

datatype error = PyErr string

record drawable =
  gid :: nat
  was_visible :: bool
  visible :: bool
  last_postrot_rect :: rect
  postrot_rect :: rect
  g_dirty :: "rect list"

datatype event = PreDraw drawable | OpaqueIn drawable rect | Draw drawable "rect list"

record hooks =
  pre_draw :: "drawable \<Rightarrow> error + drawable"
  opaque_in :: "drawable \<Rightarrow> rect \<Rightarrow> error + bool"
  draw :: "drawable \<Rightarrow> rect list \<Rightarrow> error + drawable"

text \<open>
  A loop over objects that stops at the first error: the objects before the failing one
  are updated, the others are as they were.
\<close>

fun for_each :: "('a \<Rightarrow> 's \<Rightarrow> error option \<times> 'a \<times> 's) \<Rightarrow> 'a list \<Rightarrow> 's \<Rightarrow> error option \<times> 'a list \<times> 's" where
  "for_each f [] s = (None, [], s)"
| "for_each f (x # xs) s =
     (case f x s of
        (Some e, x', s') \<Rightarrow> (Some e, x' # xs, s')
      | (None, x', s') \<Rightarrow>
          (case for_each f xs s' of (res, xs', s'') \<Rightarrow> (res, x' # xs', s'')))"

subsection \<open>Dirty rectangles from the graphics\<close>

text \<open>
  The body of the first pass for one graphic, on the pair of the list \<open>dirty\<close> and the
  calls so far.  \<open>local_dirty\<close> is the list the code clips: \<open>_dirty\<close>, or one bounding
  rectangle when the visibility changed.
\<close>

definition local_dirty :: "drawable \<Rightarrow> rect list" where
  "local_dirty g =
     (if was_visible g \<noteq> visible g
      then [if visible g then postrot_rect g else last_postrot_rect g]
      else g_dirty g)"

definition new_dirty :: "drawable \<Rightarrow> rect list" where
  "new_dirty g =
     (if was_visible g then map (\<lambda>r. clip r (last_postrot_rect g)) (local_dirty g) else []) @
     (if visible g then map (\<lambda>r. clip r (postrot_rect g)) (local_dirty g) else [])"

definition collect_g :: "hooks \<Rightarrow> drawable \<Rightarrow> rect list \<times> event list \<Rightarrow> error option \<times> drawable \<times> rect list \<times> event list" where
  "collect_g hk g st =
     (case pre_draw hk g of
        Inl e \<Rightarrow> (Some e, g, fst st, snd st @ [PreDraw g])
      | Inr g1 \<Rightarrow>
          (None, g1\<lparr>was_visible := visible g1\<rparr>, fst st @ new_dirty g1,
           snd st @ [PreDraw g]))"

definition collect :: "hooks \<Rightarrow> drawable list list \<Rightarrow> rect list \<times> event list \<Rightarrow> error option \<times> drawable list list \<times> rect list \<times> event list" where
  "collect hk graphics st = for_each (for_each (collect_g hk)) graphics st"

subsection \<open>Opaque regions\<close>

text \<open>
  The loop over the graphics of one layer for one dirty rectangle: the result is
  \<open>r_good\<close> and the clipped rectangle \<open>r\<close>.
\<close>

fun opaque_chain :: "hooks \<Rightarrow> drawable list \<Rightarrow> rect \<Rightarrow> event list \<Rightarrow> error option \<times> (bool \<times> rect) \<times> event list" where
  "opaque_chain hk [] r calls = (None, (True, r), calls)"
| "opaque_chain hk (g # gs) r calls =
     (let r' = clip r (postrot_rect g);
          calls' = calls @ [OpaqueIn g r']
      in case opaque_in hk g r' of
           Inl e \<Rightarrow> (Some e, (False, r'), calls')
         | Inr tmp \<Rightarrow>
             if rw r' > 0 \<and> rh r' > 0 \<and> tmp then opaque_chain hk gs r' calls'
             else (None, (False, r'), calls'))"

text \<open>The loop over the dirty rectangles for one layer: the list \<open>l_dirty_opaque\<close>.\<close>

fun layer_opaque :: "hooks \<Rightarrow> drawable list \<Rightarrow> rect list \<Rightarrow> event list \<Rightarrow> error option \<times> rect list \<times> event list" where
  "layer_opaque hk gs [] calls = (None, [], calls)"
| "layer_opaque hk gs (r # ds) calls =
     (case opaque_chain hk gs r calls of
        (Some e, _, calls') \<Rightarrow> (Some e, [], calls')
      | (None, (r_good, r'), calls') \<Rightarrow>
          (case layer_opaque hk gs ds calls' of
             (res, l, calls'') \<Rightarrow> (res, (if r_good then r' # l else l), calls'')))"

text \<open>
  The loop over the layers: the result is the list \<open>dirty_by_layer\<close>.  The entry of a
  layer is computed from \<open>dirty_opaque\<close> as it was before the layer's own opaque
  rectangles are added.
\<close>

fun cull :: "hooks \<Rightarrow> drawable list list \<Rightarrow> rect list \<Rightarrow> rect list \<Rightarrow> event list \<Rightarrow> error option \<times> rect list list \<times> event list" where
  "cull hk [] dirty dirty_opaque calls = (None, [], calls)"
| "cull hk (gs # graphics) dirty dirty_opaque calls =
     (case layer_opaque hk gs dirty calls of
        (Some e, _, calls') \<Rightarrow> (Some e, [], calls')
      | (None, l_dirty_opaque, calls') \<Rightarrow>
          (case cull hk graphics dirty (dirty_opaque @ l_dirty_opaque) calls' of
             (res, dbl, calls'') \<Rightarrow> (res, mk_disjoint dirty dirty_opaque # dbl, calls'')))"

subsection \<open>Redrawing\<close>

definition draw_g :: "hooks \<Rightarrow> rect list \<Rightarrow> drawable \<Rightarrow> event list \<Rightarrow> error option \<times> drawable \<times> event list" where
  "draw_g hk rs g calls =
     (if visible g then
        (let draw_in = filter (\<lambda>r. rw r > 0 \<and> rh r > 0) (map (clip (postrot_rect g)) rs)
         in if length draw_in > 0 then
              (case draw hk g draw_in of
                 Inl e \<Rightarrow> (Some e, g, calls @ [Draw g draw_in])
               | Inr g' \<Rightarrow> (None, g'\<lparr>g_dirty := []\<rparr>, calls @ [Draw g draw_in]))
            else (None, g\<lparr>g_dirty := []\<rparr>, calls))
      else (None, g\<lparr>g_dirty := []\<rparr>, calls))"

definition draw_layer :: "hooks \<Rightarrow> drawable list \<times> rect list \<Rightarrow> event list \<Rightarrow> error option \<times> (drawable list \<times> rect list) \<times> event list" where
  "draw_layer hk l calls =
     (case for_each (draw_g hk (snd l)) (fst l) calls of
        (res, gs', calls') \<Rightarrow> (res, (gs', snd l), calls'))"

text \<open>The layers are redrawn from the last to the first.\<close>

definition draw_layers :: "hooks \<Rightarrow> drawable list list \<Rightarrow> rect list list \<Rightarrow> event list \<Rightarrow> error option \<times> drawable list list \<times> event list" where
  "draw_layers hk graphics dirty_by_layer calls =
     (case for_each (draw_layer hk) (rev (zip graphics dirty_by_layer)) calls of
        (res, ls, calls') \<Rightarrow> (res, rev (map fst ls), calls'))"

subsection \<open>The whole call\<close>

text \<open>
  The result is \<open>Py_False\<close> or a list of rectangles, or the error of the method that
  raised (the code returns \<open>NULL\<close>), together with the state the call leaves behind:
  the graphics, the caller's list \<open>dirty\<close> and the calls made.
\<close>

datatype retval = Py_False | Rects "rect list"

record frame =
  graphics_of :: "drawable list list"
  dirty_of :: "rect list"
  calls_of :: "event list"

definition fastdraw :: "hooks \<Rightarrow> drawable list list \<Rightarrow> rect list \<Rightarrow> (error + retval) \<times> frame" where
  "fastdraw hk graphics_in dirty_in =
     (case collect hk graphics_in (dirty_in, []) of
        (Some e, gs1, d, c1) \<Rightarrow> (Inl e, \<lparr>graphics_of = gs1, dirty_of = d, calls_of = c1\<rparr>)
      | (None, gs1, d, c1) \<Rightarrow>
          if length d = 0 then (Inr Py_False, \<lparr>graphics_of = gs1, dirty_of = d, calls_of = c1\<rparr>)
          else
            (case cull hk gs1 d [] c1 of
               (Some e, _, c2) \<Rightarrow> (Inl e, \<lparr>graphics_of = gs1, dirty_of = d, calls_of = c2\<rparr>)
             | (None, dirty_by_layer, c2) \<Rightarrow>
                 (case draw_layers hk gs1 dirty_by_layer c2 of
                    (Some e, gs2, c3) \<Rightarrow> (Inl e, \<lparr>graphics_of = gs2, dirty_of = d, calls_of = c3\<rparr>)
                  | (None, gs2, c3) \<Rightarrow>
                      (Inr (Rects (mk_disjoint (concat dirty_by_layer) [])),
                       \<lparr>graphics_of = gs2, dirty_of = d, calls_of = c3\<rparr>))))"

section \<open>Notions used in the statements\<close>

text \<open>
  The state of a graphic after the call of \<open>_pre_draw\<close> (\<open>hooked\<close>), and after the first
  pass is done with it (\<open>collected\<close>): \<open>was_visible\<close> is set to \<open>visible\<close>.
\<close>

definition hooked :: "hooks \<Rightarrow> drawable \<Rightarrow> drawable" where
  "hooked hk g = (case pre_draw hk g of Inl e \<Rightarrow> g | Inr g1 \<Rightarrow> g1)"

definition collected :: "hooks \<Rightarrow> drawable \<Rightarrow> drawable" where
  "collected hk g = (hooked hk g)\<lparr>was_visible := visible (hooked hk g)\<rparr>"

definition pre_draw_ok :: "hooks \<Rightarrow> drawable \<Rightarrow> bool" where
  "pre_draw_ok hk g = (case pre_draw hk g of Inl e \<Rightarrow> False | Inr g1 \<Rightarrow> True)"

text \<open>
  What a recorded call did: the error it raised, or \<open>None\<close> when it returned.
  \<open>trace_ext hk res c c'\<close> says that \<open>c'\<close> extends \<open>c\<close> by calls that all returned
  (\<open>res = None\<close>), or by calls that returned followed by one last call that raised \<open>e\<close>
  (\<open>res = Some e\<close>).
\<close>

fun outcome :: "hooks \<Rightarrow> event \<Rightarrow> error option" where
  "outcome hk (PreDraw g) = (case pre_draw hk g of Inl e \<Rightarrow> Some e | Inr _ \<Rightarrow> None)"
| "outcome hk (OpaqueIn g r) = (case opaque_in hk g r of Inl e \<Rightarrow> Some e | Inr _ \<Rightarrow> None)"
| "outcome hk (Draw g rs) = (case draw hk g rs of Inl e \<Rightarrow> Some e | Inr _ \<Rightarrow> None)"

definition trace_ext :: "hooks \<Rightarrow> error option \<Rightarrow> event list \<Rightarrow> event list \<Rightarrow> bool" where
  "trace_ext hk res c c' \<longleftrightarrow>
     (\<exists>new. c' = c @ new \<and>
        (case res of
           None \<Rightarrow> (\<forall>ev \<in> set new. outcome hk ev = None)
         | Some e \<Rightarrow> new \<noteq> [] \<and> outcome hk (last new) = Some e \<and>
             (\<forall>ev \<in> set (butlast new). outcome hk ev = None)))"

text \<open>The second pass records calls of the opacity predicate only.\<close>

definition opaque_events :: "event list \<Rightarrow> event list \<Rightarrow> bool" where
  "opaque_events c c' \<longleftrightarrow> (\<exists>new. c' = c @ new \<and> (\<forall>ev \<in> set new. \<exists>g r. ev = OpaqueIn g r))"

text \<open>
  A rectangle whose fields, right edge and bottom edge are values of \<open>int\<close>.  A list of
  rectangles \<open>fits\<close> when, moreover, any two x-edges and any two y-edges of the list
  differ by a value of \<open>int\<close>: the list is less than \<open>2^31\<close> wide and high.
\<close>

definition c_rect :: "rect \<Rightarrow> bool" where
  "c_rect r \<longleftrightarrow>
     int_ok (rx r) \<and> int_ok (ry r) \<and> int_ok (rw r) \<and> int_ok (rh r) \<and>
     int_ok (rx r + rw r) \<and> int_ok (ry r + rh r)"

definition x_edges :: "rect list \<Rightarrow> int list" where
  "x_edges rs = concat (map (\<lambda>r. [rx r, rx r + rw r]) rs)"

definition y_edges :: "rect list \<Rightarrow> int list" where
  "y_edges rs = concat (map (\<lambda>r. [ry r, ry r + rh r]) rs)"

definition diffs_ok :: "int list \<Rightarrow> bool" where
  "diffs_ok e \<longleftrightarrow> (\<forall>u \<in> set e. \<forall>v \<in> set e. int_ok (u - v))"

definition fits :: "rect list \<Rightarrow> bool" where
  "fits rs \<longleftrightarrow> (\<forall>r \<in> set rs. c_rect r) \<and> diffs_ok (x_edges rs) \<and> diffs_ok (y_edges rs)"

text \<open>The rectangle \<open>r\<close> lies within the rectangle \<open>b\<close>.\<close>

definition inside :: "rect \<Rightarrow> rect \<Rightarrow> bool" where
  "inside r b \<longleftrightarrow>
     rx b \<le> rx r \<and> rx r + rw r \<le> rx b + rw b \<and> ry b \<le> ry r \<and> ry r + rh r \<le> ry b + rh b"

section \<open>Notions used in the proofs\<close>

subsection \<open>quicksort\<close>

text \<open>
  The partition loop works on the segment \<open>b..<e\<close> with a hole at \<open>L\<close>: with the pivot in
  the hole the array is a permutation of the original one, the entries outside the
  segment are untouched, those left of \<open>L\<close> are at most the pivot and those right of \<open>R\<close>
  at least the pivot.
\<close>

definition part_inv :: "int list \<Rightarrow> nat \<Rightarrow> nat \<Rightarrow> int \<Rightarrow> int list \<times> nat \<times> nat \<Rightarrow> bool" where
  "part_inv arr0 b e piv st \<longleftrightarrow>
     (case st of (arr, L, R) \<Rightarrow>
        length arr = length arr0 \<and> b \<le> L \<and> L \<le> R \<and> R < e \<and> e \<le> length arr0 \<and>
        mset (arr[L := piv]) = mset arr0 \<and>
        (\<forall>i. i < b \<or> e \<le> i \<longrightarrow> arr ! i = arr0 ! i) \<and>
        (\<forall>i. b \<le> i \<and> i < L \<longrightarrow> arr ! i \<le> piv) \<and>
        (\<forall>i. R < i \<and> i < e \<longrightarrow> piv \<le> arr ! i))"

text \<open>
  The segments on the stack are disjoint, and two entries of the array that are not in
  one segment of the stack are in order.
\<close>

definition seg_disj :: "nat \<times> nat \<Rightarrow> nat \<times> nat \<Rightarrow> bool" where
  "seg_disj s t \<longleftrightarrow> snd s \<le> fst t \<or> snd t \<le> fst s"

definition same_seg :: "(nat \<times> nat) list \<Rightarrow> nat \<Rightarrow> nat \<Rightarrow> bool" where
  "same_seg st i j \<longleftrightarrow> (\<exists>s \<in> set st. fst s \<le> i \<and> j < snd s)"

definition qs_inv :: "int list \<Rightarrow> (nat \<times> nat) list \<Rightarrow> bool" where
  "qs_inv arr st \<longleftrightarrow>
     sorted_wrt seg_disj st \<and> (\<forall>s \<in> set st. snd s \<le> length arr) \<and>
     (\<forall>i j. i < j \<and> j < length arr \<and> \<not> same_seg st i j \<longrightarrow> arr ! i \<le> arr ! j)"

subsection \<open>The scan\<close>

text \<open>
  \<open>scan_row\<close> is the scan of one row on its own: it goes through the cells from column
  \<open>j\<close> on with the column where the open run began, if one is open.  \<open>flush\<close> closes the
  rectangle that is open at the end of a row, and \<open>tracks\<close> relates the state of the code's
  scan to the open run of \<open>scan_row\<close>.
\<close>

fun scan_row :: "nat \<Rightarrow> nat option \<Rightarrow> bool list \<Rightarrow> (nat \<times> nat) list" where
  "scan_row j None [] = []"
| "scan_row j (Some a) [] = [(a, j)]"
| "scan_row j None (c # cs) = (if c then scan_row (j + 1) (Some j) cs else scan_row (j + 1) None cs)"
| "scan_row j (Some a) (c # cs) =
     (if c then scan_row (j + 1) (Some a) cs else (a, j) # scan_row (j + 1) None cs)"

definition flush :: "int list \<Rightarrow> int list \<Rightarrow> scan_state \<Rightarrow> scan_state" where
  "flush e0 e1 s = (if in_rect s then end_rect e1 (e0 ! (length e0 - 1)) s else s)"

definition tracks :: "int list \<Rightarrow> nat \<Rightarrow> nat option \<Rightarrow> scan_state \<Rightarrow> bool" where
  "tracks e0 i opt s \<longleftrightarrow>
     (case opt of None \<Rightarrow> \<not> in_rect s
      | Some a \<Rightarrow> in_rect s \<and> r_i s = i \<and> r_left s = e0 ! a)"

text \<open>
  The open run of a scan that has gone through the cells \<open>pre\<close>: it began at a column whose
  predecessor is not marked, and all cells since are marked.
\<close>

definition open_ok :: "bool list \<Rightarrow> nat option \<Rightarrow> bool" where
  "open_ok pre opt \<longleftrightarrow>
     (case opt of
        None \<Rightarrow> pre = [] \<or> \<not> last pre
      | Some a \<Rightarrow> a < length pre \<and> (\<forall>k \<in> {a..<length pre}. pre ! k) \<and>
          (a = 0 \<or> \<not> pre ! (a - 1)))"

subsection \<open>The grid\<close>

text \<open>One mark, and the list of the cells that the marking loop visits for a rectangle.\<close>

definition upd :: "int \<Rightarrow> int list \<Rightarrow> nat \<Rightarrow> int list" where
  "upd flag g m = g[m := (g ! m) OR flag]"

definition cells_of :: "int list \<Rightarrow> int list \<Rightarrow> rect \<Rightarrow> nat list" where
  "cells_of e0 e1 r =
     (if rw r > 0 \<and> rh r > 0 then
        concat (map (\<lambda>k. map (cell_index e0 k)
            [find_idx e0 (rx r) 0..find_idx e0 (c_add (rx r) (rw r)) (find_idx e0 (rx r) 0) - 1])
          [find_idx e1 (ry r) 0..find_idx e1 (c_add (ry r) (rh r)) (find_idx e1 (ry r) 0) - 1])
      else [])"

text \<open>
  The cell in row \<open>k\<close> and column \<open>l\<close> lies inside the rectangle \<open>r\<close>; the edges of \<open>r\<close> are
  among the edges, and the code's sums are the right and the bottom edge of \<open>r\<close>; the
  pixel \<open>p\<close> lies in the cell; the edges are sorted and contain the edges of every
  rectangle.
\<close>

definition cell_in :: "int list \<Rightarrow> int list \<Rightarrow> rect \<Rightarrow> nat \<Rightarrow> nat \<Rightarrow> bool" where
  "cell_in e0 e1 r k l \<longleftrightarrow>
     rx r \<le> e0 ! l \<and> e0 ! (l + 1) \<le> rx r + rw r \<and>
     ry r \<le> e1 ! k \<and> e1 ! (k + 1) \<le> ry r + rh r"

definition has_edges :: "int list \<Rightarrow> int list \<Rightarrow> rect \<Rightarrow> bool" where
  "has_edges e0 e1 r \<longleftrightarrow>
     rx r \<in> set e0 \<and> rx r + rw r \<in> set e0 \<and> ry r \<in> set e1 \<and> ry r + rh r \<in> set e1 \<and>
     c_add (rx r) (rw r) = rx r + rw r \<and> c_add (ry r) (rh r) = ry r + rh r"

definition in_cell :: "int list \<Rightarrow> int list \<Rightarrow> nat \<Rightarrow> nat \<Rightarrow> int \<times> int \<Rightarrow> bool" where
  "in_cell e0 e1 k l p \<longleftrightarrow>
     e0 ! l \<le> fst p \<and> fst p < e0 ! (l + 1) \<and> e1 ! k \<le> snd p \<and> snd p < e1 ! (k + 1)"

definition grid_ok :: "int list \<Rightarrow> int list \<Rightarrow> rect list \<Rightarrow> rect list \<Rightarrow> bool" where
  "grid_ok e0 e1 add rm \<longleftrightarrow>
     sorted_wrt (<) e0 \<and> sorted_wrt (<) e1 \<and> (\<forall>r \<in> set add \<union> set rm. has_edges e0 e1 r)"

text \<open>
  The region that \<open>mk_disjoint add rm\<close> is to cover: the pixels of the non-degenerate
  rectangles of \<open>add\<close> that no non-degenerate rectangle of \<open>rm\<close> covers.
\<close>

definition region :: "rect list \<Rightarrow> rect list \<Rightarrow> int \<times> int \<Rightarrow> bool" where
  "region add rm p \<longleftrightarrow>
     (\<exists>a \<in> set add. nondegenerate a \<and> covers a p) \<and>
     \<not> (\<exists>b \<in> set rm. nondegenerate b \<and> covers b p)"

text \<open>
  The rectangle \<open>q\<close> is one row of the grid whose y-edges are \<open>E\<close>: its top and its bottom
  are edges and no edge lies between them.
\<close>

definition row_of :: "int set \<Rightarrow> rect \<Rightarrow> bool" where
  "row_of E q \<longleftrightarrow>
     ry q \<in> E \<and> ry q + rh q \<in> E \<and> (\<forall>y \<in> E. y \<le> ry q \<or> ry q + rh q \<le> y)"

text \<open>
  The rectangle \<open>q\<close> is a maximal horizontal span of the region \<open>S\<close> on the pixel row of its
  top: every pixel of that row from its left to its right is in \<open>S\<close>, and the pixel before
  and the pixel after are not.
\<close>

definition span_of :: "(int \<times> int \<Rightarrow> bool) \<Rightarrow> rect \<Rightarrow> bool" where
  "span_of S q \<longleftrightarrow>
     0 < rw q \<and> 0 < rh q \<and> (\<forall>x. rx q \<le> x \<and> x < rx q + rw q \<longrightarrow> S (x, ry q)) \<and>
     \<not> S (rx q - 1, ry q) \<and> \<not> S (rx q + rw q, ry q)"

text \<open>The order of the output: by row, then by column.\<close>

definition rect_key :: "rect \<Rightarrow> int \<times> int" where
  "rect_key r = (ry r, rx r)"

subsection \<open>Opaque regions\<close>

text \<open>
  What the loops of the second pass compute, apart from the calls they record: \<open>r_good\<close>
  and the clipped rectangle for one dirty rectangle, and the list \<open>l_dirty_opaque\<close> of a
  layer.
\<close>

definition chain_result :: "hooks \<Rightarrow> drawable list \<Rightarrow> rect \<Rightarrow> error option \<times> bool \<times> rect" where
  "chain_result hk gs r = (case opaque_chain hk gs r [] of (res, v, evs) \<Rightarrow> (res, v))"

definition opaque_of :: "hooks \<Rightarrow> drawable list \<Rightarrow> rect list \<Rightarrow> rect list" where
  "opaque_of hk gs ds = fst (snd (layer_opaque hk gs ds []))"

section \<open>Example inputs\<close>

text \<open>
  Hooks that always succeed and change nothing, with an opacity predicate that is true
  everywhere, and two graphics: one that has just been hidden and one that stays visible.
\<close>

definition ex_hooks :: hooks where
  "ex_hooks = \<lparr>pre_draw = Inr, opaque_in = (\<lambda>g r. Inr True), draw = (\<lambda>g rs. Inr g)\<rparr>"

definition ex_hidden :: drawable where
  "ex_hidden = \<lparr>gid = 1, was_visible = True, visible = False,
     last_postrot_rect = Rect 20 0 10 10, postrot_rect = Rect 25 0 10 10,
     g_dirty = [Rect 21 1 2 2, Rect 0 0 3 3]\<rparr>"

definition ex_shown :: drawable where
  "ex_shown = \<lparr>gid = 2, was_visible = True, visible = True,
     last_postrot_rect = Rect 0 0 10 10, postrot_rect = Rect 0 0 10 10,
     g_dirty = [Rect 2 2 3 3]\<rparr>"

definition ex_clean :: drawable where
  "ex_clean = \<lparr>gid = 3, was_visible = True, visible = True,
     last_postrot_rect = Rect 0 0 10 10, postrot_rect = Rect 0 0 10 10, g_dirty = []\<rparr>"

definition ex_off :: drawable where
  "ex_off = \<lparr>gid = 4, was_visible = False, visible = False,
     last_postrot_rect = Rect 0 0 10 10, postrot_rect = Rect 0 0 10 10,
     g_dirty = [Rect 1 1 2 2]\<rparr>"

text \<open>Hooks whose \<open>_pre_draw\<close> raises on the graphic of identity 9.\<close>

definition ex_fail_hooks :: hooks where
  "ex_fail_hooks = \<lparr>pre_draw = (\<lambda>g. if gid g = 9 then Inl (PyErr ''boom'') else Inr g),
     opaque_in = (\<lambda>g r. Inr True), draw = (\<lambda>g rs. Inr g)\<rparr>"

definition ex_bad :: drawable where
  "ex_bad = \<lparr>gid = 9, was_visible = True, visible = True,
     last_postrot_rect = Rect 0 0 10 10, postrot_rect = Rect 0 0 10 10, g_dirty = []\<rparr>"

text \<open>
  Hooks whose opacity predicate is false everywhere, a graphic away from the others and
  a graphic for an upper layer.
\<close>

definition ex_clear_hooks :: hooks where
  "ex_clear_hooks = \<lparr>pre_draw = Inr, opaque_in = (\<lambda>g r. Inr False), draw = (\<lambda>g rs. Inr g)\<rparr>"

definition ex_far :: drawable where
  "ex_far = \<lparr>gid = 6, was_visible = True, visible = True,
     last_postrot_rect = Rect 20 0 10 10, postrot_rect = Rect 20 0 10 10, g_dirty = []\<rparr>"

definition ex_top :: drawable where
  "ex_top = \<lparr>gid = 7, was_visible = True, visible = True,
     last_postrot_rect = Rect 0 0 10 10, postrot_rect = Rect 0 0 10 10, g_dirty = []\<rparr>"

section \<open>The edges\<close>

lemma set_set_add: "set (set_add arr x) = insert x (set arr)"
  by (auto simp: set_add_def)

lemma distinct_set_add: "distinct arr \<Longrightarrow> distinct (set_add arr x)"
  by (simp add: set_add_def)

lemma wrap_id: "int_ok v \<Longrightarrow> wrap v = v"
  by (simp add: wrap_def int_ok_def)

lemma int_ok_wrap: "int_ok (wrap v)"
  by (simp add: wrap_def int_ok_def)

lemma c_rect_sums:
  "c_rect r \<Longrightarrow> c_add (rx r) (rw r) = rx r + rw r"
  "c_rect r \<Longrightarrow> c_add (ry r) (rh r) = ry r + rh r"
  by (simp_all add: c_rect_def c_add_def wrap_id)

lemma add_edges_sets:
  "set (fst (add_edges es r)) = {rx r, c_add (rx r) (rw r)} \<union> set (fst es)"
  "set (snd (add_edges es r)) = {ry r, c_add (ry r) (rh r)} \<union> set (snd es)"
  by (auto simp: add_edges_def Let_def set_set_add)

lemma add_edges_distinct:
  "distinct (fst es) \<Longrightarrow> distinct (fst (add_edges es r))"
  "distinct (snd es) \<Longrightarrow> distinct (snd (add_edges es r))"
  by (simp_all add: add_edges_def Let_def distinct_set_add)

lemma foldl_add_edges_sets:
  "set (fst (foldl add_edges es rs)) =
     set (fst es) \<union> (\<Union>r \<in> set rs. {rx r, c_add (rx r) (rw r)})"
  "set (snd (foldl add_edges es rs)) =
     set (snd es) \<union> (\<Union>r \<in> set rs. {ry r, c_add (ry r) (rh r)})"
  by (induction rs arbitrary: es) (auto simp: add_edges_sets)

lemma foldl_add_edges_distinct:
  "distinct (fst es) \<Longrightarrow> distinct (fst (foldl add_edges es rs))"
  "distinct (snd es) \<Longrightarrow> distinct (snd (foldl add_edges es rs))"
  by (induction rs arbitrary: es) (auto simp: add_edges_distinct)

lemma get_edges_sets:
  "set (fst (get_edges add rm)) = (\<Union>r \<in> set add \<union> set rm. {rx r, c_add (rx r) (rw r)})"
  "set (snd (get_edges add rm)) = (\<Union>r \<in> set add \<union> set rm. {ry r, c_add (ry r) (rh r)})"
  by (simp_all add: get_edges_def foldl_add_edges_sets)

lemma get_edges_c_rect:
  assumes "\<forall>r \<in> set add \<union> set rm. c_rect r"
  shows "set (fst (get_edges add rm)) = set (x_edges (add @ rm))"
    and "set (snd (get_edges add rm)) = set (y_edges (add @ rm))"
  using assms by (auto simp add: get_edges_sets x_edges_def y_edges_def c_rect_sums)

lemma get_edges_distinct:
  "distinct (fst (get_edges add rm))" "distinct (snd (get_edges add rm))"
  by (simp_all add: get_edges_def foldl_add_edges_distinct)

text \<open>
  Claim C3, as stated, fails: the edge loop has no test on \<open>w\<close> and \<open>h\<close>.  The degenerate
  rectangle \<open>(0, 0, 0, 5)\<close> alone gives the x-edge \<open>0\<close> and the y-edges \<open>0\<close> and \<open>5\<close>, where
  the empty lists give no edge.
\<close>

theorem degenerate_edges_counterexample:
  "\<not> nondegenerate (Rect 0 0 0 5) \<and> get_edges [] [] = ([], []) \<and>
   get_edges [Rect 0 0 0 5] [] = ([0], [0, 5])"
  by (simp add: nondegenerate_def Rect_def get_edges_def add_edges_def set_add_def
      c_add_def wrap_def)

text \<open>
  Claim C3, amended.  Every rectangle of either list, degenerate or not, contributes
  \<open>x\<close> and the code's sum \<open>x + w\<close> to the x-edges and \<open>y\<close> and the code's sum \<open>y + h\<close> to the
  y-edges, and the edges are those and no others; the sums are sums of \<open>int\<close>, and they
  are the right and the bottom edge of a rectangle for which these are values of \<open>int\<close>.
  What a degenerate rectangle does not contribute is marks: the marking loop leaves the
  grid as it is.
\<close>

theorem edges_of_every_rect:
  "set (fst (get_edges add rm)) = (\<Union>r \<in> set add \<union> set rm. {rx r, c_add (rx r) (rw r)}) \<and>
   set (snd (get_edges add rm)) = (\<Union>r \<in> set add \<union> set rm. {ry r, c_add (ry r) (rh r)}) \<and>
   (c_rect r \<longrightarrow> c_add (rx r) (rw r) = rx r + rw r \<and> c_add (ry r) (rh r) = ry r + rh r) \<and>
   (\<not> nondegenerate r \<longrightarrow> mark_rect e0 e1 flag grid r = grid)"
  by (auto simp: get_edges_sets mark_rect_def nondegenerate_def c_rect_sums)

theorem edges_of_every_rect_witness:
  "set (fst (get_edges [Rect 0 0 10 10] [Rect 3 4 0 5])) = {0, 10, 3} \<and>
   set (snd (get_edges [Rect 0 0 10 10] [Rect 3 4 0 5])) = {0, 10, 4, 9} \<and>
   c_rect (Rect 3 4 0 5) \<and> c_add 4 5 = 9 \<and> c_add 2147483647 1 = - 2147483648 \<and>
   \<not> nondegenerate (Rect 3 4 0 5) \<and>
   mark_rect [0, 3, 10] [0, 4, 9, 10] 1 [2, 2, 2, 2, 2, 2] (Rect 3 4 0 5) = [2, 2, 2, 2, 2, 2]"
proof -
  have h: "\<not> nondegenerate (Rect 3 4 0 5)" "c_rect (Rect 3 4 0 5)"
    by (simp_all add: nondegenerate_def c_rect_def int_ok_def Rect_def)
  have c: "c_add 0 10 = 10" "c_add 3 0 = 3" "c_add 4 5 = 9" "c_add 2147483647 1 = - 2147483648"
    by (simp_all add: c_add_def wrap_def)
  show ?thesis
    using edges_of_every_rect [of "[Rect 0 0 10 10]" "[Rect 3 4 0 5]" "Rect 3 4 0 5"
        "[0, 3, 10]" "[0, 4, 9, 10]" 1 "[2, 2, 2, 2, 2, 2]"] h c
    by (auto simp: Rect_def)
qed

section \<open>Properties of the first pass\<close>

lemma clip_self: "nondegenerate r \<Longrightarrow> clip r r = r"
  by (simp add: clip_def clip_lo_def clip_len_def nondegenerate_def Rect_def)

text \<open>
  Claim C4.  A graphic that was visible and is now hidden, with a non-degenerate previous
  bounding rectangle, adds exactly one rectangle to the list \<open>dirty\<close>: the previous
  bounding rectangle, whatever its own list \<open>_dirty\<close> holds.  The attributes are those the
  code reads, after the call of \<open>_pre_draw\<close>.
\<close>

theorem visibility_toggle:
  assumes "pre_draw hk g = Inr g1" and "was_visible g1" and "\<not> visible g1"
    and "nondegenerate (last_postrot_rect g1)"
  shows "fst (collect_g hk g (d, c)) = None \<and>
         fst (snd (snd (collect_g hk g (d, c)))) = d @ [last_postrot_rect g1]"
  using assms by (auto simp: collect_g_def new_dirty_def local_dirty_def clip_self)

theorem visibility_toggle_witness:
  "pre_draw ex_hooks ex_hidden = Inr ex_hidden \<and> was_visible ex_hidden \<and>
   \<not> visible ex_hidden \<and> nondegenerate (last_postrot_rect ex_hidden) \<and>
   g_dirty ex_hidden = [Rect 21 1 2 2, Rect 0 0 3 3] \<and>
   fst (collect_g ex_hooks ex_hidden ([Rect 5 5 1 1], [])) = None \<and>
   fst (snd (snd (collect_g ex_hooks ex_hidden ([Rect 5 5 1 1], [])))) =
     [Rect 5 5 1 1, Rect 20 0 10 10]"
proof -
  have h: "pre_draw ex_hooks ex_hidden = Inr ex_hidden" "was_visible ex_hidden"
    "\<not> visible ex_hidden" "nondegenerate (last_postrot_rect ex_hidden)"
    by (simp_all add: ex_hooks_def ex_hidden_def nondegenerate_def Rect_def)
  show ?thesis
    using visibility_toggle [OF h, of "[Rect 5 5 1 1]" "[]"] h
    by (simp add: ex_hidden_def)
qed

lemma collect_g_ok:
  "pre_draw_ok hk g \<Longrightarrow>
   collect_g hk g st = (None, collected hk g, fst st @ new_dirty (hooked hk g), snd st @ [PreDraw g])"
  by (auto simp: collect_g_def pre_draw_ok_def collected_def hooked_def split: sum.splits)

lemma collect_g_None:
  "fst (collect_g hk g st) = None \<longleftrightarrow> pre_draw_ok hk g"
  by (auto simp: collect_g_def pre_draw_ok_def split: sum.splits)

lemma collect_gs_ok:
  "\<forall>g \<in> set gs. pre_draw_ok hk g \<Longrightarrow>
   for_each (collect_g hk) gs st =
     (None, map (collected hk) gs, fst st @ concat (map (\<lambda>g. new_dirty (hooked hk g)) gs),
      snd st @ map PreDraw gs)"
  by (induction gs arbitrary: st) (simp_all add: collect_g_ok)

lemma collect_gs_None:
  "fst (for_each (collect_g hk) gs st) = None \<Longrightarrow> \<forall>g \<in> set gs. pre_draw_ok hk g"
proof (induction gs arbitrary: st)
  case Nil
  then show ?case by simp
next
  case (Cons g gs)
  show ?case
  proof (cases "pre_draw_ok hk g")
    case True
    from Cons.prems have "fst (for_each (collect_g hk) gs
        (fst st @ new_dirty (hooked hk g), snd st @ [PreDraw g])) = None"
      by (auto simp: collect_g_ok [OF True] split: prod.splits)
    from Cons.IH [OF this] True show ?thesis by simp
  next
    case False
    then have "fst (collect_g hk g st) \<noteq> None" by (simp add: collect_g_None)
    with Cons.prems show ?thesis
      by (auto split: prod.splits option.splits)
  qed
qed

lemma collect_ok:
  "\<forall>g \<in> set (concat graphics). pre_draw_ok hk g \<Longrightarrow>
   collect hk graphics st =
     (None, map (map (collected hk)) graphics,
      fst st @ concat (map (\<lambda>g. new_dirty (hooked hk g)) (concat graphics)),
      snd st @ map PreDraw (concat graphics))"
  unfolding collect_def
  by (induction graphics arbitrary: st) (simp_all add: collect_gs_ok)

lemma collect_None:
  "fst (collect hk graphics st) = None \<Longrightarrow> \<forall>g \<in> set (concat graphics). pre_draw_ok hk g"
  unfolding collect_def
proof (induction graphics arbitrary: st)
  case Nil
  then show ?case by simp
next
  case (Cons gs graphics)
  have a: "fst (for_each (collect_g hk) gs st) = None"
    using Cons.prems by (auto split: prod.splits option.splits)
  then have ok: "\<forall>g \<in> set gs. pre_draw_ok hk g" by (rule collect_gs_None)
  from Cons.prems have "fst (for_each (for_each (collect_g hk)) graphics
      (fst st @ concat (map (\<lambda>g. new_dirty (hooked hk g)) gs), snd st @ map PreDraw gs)) = None"
    by (auto simp: collect_gs_ok [OF ok] split: prod.splits)
  from Cons.IH [OF this] ok show ?case by auto
qed


lemma collected_simps:
  "pre_draw hk g = Inr g1 \<Longrightarrow> collected hk g = g1\<lparr>was_visible := visible g1\<rparr>"
  "pre_draw hk g = Inr g1 \<Longrightarrow> hooked hk g = g1"
  by (simp_all add: collected_def hooked_def)

lemma pre_draw_okE: "pre_draw_ok hk g \<Longrightarrow> \<exists>g1. pre_draw hk g = Inr g1"
  by (auto simp: pre_draw_ok_def split: sum.splits)

lemma pre_draw_okI: "pre_draw hk g = Inr g1 \<Longrightarrow> pre_draw_ok hk g"
  by (auto simp: pre_draw_ok_def split: sum.splits)

lemma list_all2_collected:
  "\<forall>g \<in> set gs. pre_draw_ok hk g \<Longrightarrow>
   list_all2 (\<lambda>g g'. \<exists>g1. pre_draw hk g = Inr g1 \<and> g' = g1\<lparr>was_visible := visible g1\<rparr>)
     gs (map (collected hk) gs)"
  by (induction gs) (auto dest!: pre_draw_okE simp: collected_simps)

lemma list_all2_collected2:
  "\<forall>g \<in> set (concat graphics). pre_draw_ok hk g \<Longrightarrow>
   list_all2 (list_all2 (\<lambda>g g'. \<exists>g1. pre_draw hk g = Inr g1 \<and> g' = g1\<lparr>was_visible := visible g1\<rparr>))
     graphics (map (map (collected hk)) graphics)"
  by (induction graphics) (auto simp: list_all2_collected)

subsection \<open>draw pass\<close>

lemma draw_g_None:
  "draw_g hk rs g c = (None, g', c') \<Longrightarrow> g_dirty g' = []"
  by (auto simp: draw_g_def Let_def split: if_splits sum.splits)

lemma for_each_draw_g_None:
  "for_each (draw_g hk rs) gs c = (None, gs', c') \<Longrightarrow> \<forall>g \<in> set gs'. g_dirty g = []"
proof (induction gs arbitrary: c gs' c')
  case Nil
  then show ?case by simp
next
  case (Cons g gs)
  obtain r g1 c1 where dg: "draw_g hk rs g c = (r, g1, c1)"
    by (cases "draw_g hk rs g c") auto
  show ?case
  proof (cases r)
    case None
    obtain r2 gs2 c2 where fe: "for_each (draw_g hk rs) gs c1 = (r2, gs2, c2)"
      by (cases "for_each (draw_g hk rs) gs c1") auto
    with Cons.prems dg None have eq: "r2 = None" "gs' = g1 # gs2" by auto
    from Cons.IH [of c1 gs2 c2] fe eq have "\<forall>g \<in> set gs2. g_dirty g = []" by simp
    moreover from dg None have "g_dirty g1 = []" by (auto dest: draw_g_None)
    ultimately show ?thesis using eq by simp
  next
    case (Some e)
    with Cons.prems dg show ?thesis by simp
  qed
qed

lemma for_each_draw_layer_None:
  "for_each (draw_layer hk) ls c = (None, ls', c') \<Longrightarrow>
   \<forall>g \<in> set (concat (map fst ls')). g_dirty g = []"
proof (induction ls arbitrary: c ls' c')
  case Nil
  then show ?case by simp
next
  case (Cons l ls)
  obtain r gs1 c1 where fe1: "for_each (draw_g hk (snd l)) (fst l) c = (r, gs1, c1)"
    by (cases "for_each (draw_g hk (snd l)) (fst l) c") auto
  then have dl: "draw_layer hk l c = (r, (gs1, snd l), c1)"
    by (simp add: draw_layer_def)
  show ?case
  proof (cases r)
    case None
    obtain r2 ls2 c2 where fe: "for_each (draw_layer hk) ls c1 = (r2, ls2, c2)"
      by (cases "for_each (draw_layer hk) ls c1") auto
    with Cons.prems dl None have eq: "r2 = None" "ls' = (gs1, snd l) # ls2" by auto
    from Cons.IH [of c1 ls2 c2] fe eq
    have "\<forall>g \<in> set (concat (map fst ls2)). g_dirty g = []" by simp
    moreover from fe1 None have "\<forall>g \<in> set gs1. g_dirty g = []"
      by (auto dest: for_each_draw_g_None)
    ultimately show ?thesis using eq by auto
  next
    case (Some e)
    with Cons.prems dl show ?thesis by simp
  qed
qed

lemma draw_layers_None:
  assumes "draw_layers hk gs dbl c = (None, gs', c')"
  shows "\<forall>g \<in> set (concat gs'). g_dirty g = []"
proof -
  obtain r ls c1 where fe: "for_each (draw_layer hk) (rev (zip gs dbl)) c = (r, ls, c1)"
    by (cases "for_each (draw_layer hk) (rev (zip gs dbl)) c") auto
  with assms have eq: "r = None" "gs' = rev (map fst ls)"
    by (auto simp: draw_layers_def)
  from for_each_draw_layer_None [of hk "rev (zip gs dbl)" c ls c1] fe eq
  have "\<forall>g \<in> set (concat (map fst ls)). g_dirty g = []" by simp
  then show ?thesis using eq by auto
qed

text \<open>
  Claim C7.  With an empty list \<open>dirty\<close> passed in, when every \<open>_pre_draw\<close> returns and no
  graphic adds a rectangle in the first pass, the call returns \<open>Py_False\<close> and no \<open>_draw\<close>
  is called.
\<close>

theorem nothing_dirty_returns_False:
  assumes "\<forall>g \<in> set (concat gin). \<exists>g1. pre_draw hk g = Inr g1 \<and> new_dirty g1 = []"
  shows "fst (fastdraw hk gin []) = Inr Py_False \<and>
         (\<forall>g rs. Draw g rs \<notin> set (calls_of (snd (fastdraw hk gin []))))"
proof -
  have ok: "\<forall>g \<in> set (concat gin). pre_draw_ok hk g"
    using assms by (auto intro: pre_draw_okI)
  have "\<forall>g \<in> set (concat gin). new_dirty (hooked hk g) = []"
  proof
    fix g assume "g \<in> set (concat gin)"
    with assms obtain g1 where "pre_draw hk g = Inr g1" "new_dirty g1 = []" by blast
    then show "new_dirty (hooked hk g) = []" by (simp add: collected_simps)
  qed
  then have "concat (map (\<lambda>g. new_dirty (hooked hk g)) (concat gin)) = []"
    by simp
  then have "collect hk gin ([], []) =
      (None, map (map (collected hk)) gin, [], map PreDraw (concat gin))"
    by (simp add: collect_ok [OF ok])
  then have "fastdraw hk gin [] =
      (Inr Py_False, \<lparr>graphics_of = map (map (collected hk)) gin, dirty_of = [],
         calls_of = map PreDraw (concat gin)\<rparr>)"
    by (simp add: fastdraw_def)
  then show ?thesis by auto
qed

theorem nothing_dirty_returns_False_witness:
  "new_dirty ex_clean = [] \<and> new_dirty ex_off = [] \<and>
   fst (fastdraw ex_hooks [[ex_clean], [ex_off]] []) = Inr Py_False \<and>
   (\<forall>g rs. Draw g rs \<notin> set (calls_of (snd (fastdraw ex_hooks [[ex_clean], [ex_off]] []))))"
proof -
  have nd: "new_dirty ex_clean = []" "new_dirty ex_off = []"
    by (simp_all add: new_dirty_def local_dirty_def ex_clean_def ex_off_def)
  have h: "\<forall>g \<in> set (concat [[ex_clean], [ex_off]]).
      \<exists>g1. pre_draw ex_hooks g = Inr g1 \<and> new_dirty g1 = []"
    using nd by (simp add: ex_hooks_def)
  show ?thesis
    using nothing_dirty_returns_False [OF h] nd by simp
qed

text \<open>
  Claim C10.  When the first pass completes, \<open>_pre_draw\<close> has been called once on every
  graphic, in order, and every graphic is what \<open>_pre_draw\<close> returned with \<open>was_visible\<close>
  set to \<open>visible\<close>; so it is when the call returns \<open>Py_False\<close>, where the graphics
  (and with them their lists \<open>_dirty\<close>) are left as the first pass left them.  When
  the call returns a list of rectangles, the redraw pass has run and every \<open>_dirty\<close>
  is the empty list.
\<close>

theorem collection_pass_effects:
  assumes "collect hk gin (din, []) = (None, gs1, d, c1)"
  shows "c1 = map PreDraw (concat gin) \<and>
     list_all2 (list_all2 (\<lambda>g g'. \<exists>g1. pre_draw hk g = Inr g1 \<and> g' = g1\<lparr>was_visible := visible g1\<rparr>))
       gin gs1 \<and>
     (\<forall>g' \<in> set (concat gs1). was_visible g' = visible g') \<and>
     (d = [] \<longrightarrow> fastdraw hk gin din =
        (Inr Py_False, \<lparr>graphics_of = gs1, dirty_of = [], calls_of = c1\<rparr>)) \<and>
     (\<forall>rs fr. fastdraw hk gin din = (Inr (Rects rs), fr) \<longrightarrow>
        (\<forall>g' \<in> set (concat (graphics_of fr)). g_dirty g' = []))"
proof -
  have ok: "\<forall>g \<in> set (concat gin). pre_draw_ok hk g"
    using collect_None [of hk gin "(din, [])"] assms by simp
  from collect_ok [OF ok, of "(din, [])"] assms
  have eq: "gs1 = map (map (collected hk)) gin" "c1 = map PreDraw (concat gin)"
    by simp_all
  have vis: "\<forall>g' \<in> set (concat gs1). was_visible g' = visible g'"
    unfolding eq by (auto simp: collected_def)
  have none: "d = [] \<longrightarrow> fastdraw hk gin din =
        (Inr Py_False, \<lparr>graphics_of = gs1, dirty_of = [], calls_of = c1\<rparr>)"
    using assms by (simp add: fastdraw_def)
  have drawn: "\<forall>g' \<in> set (concat (graphics_of fr)). g_dirty g' = []"
    if "fastdraw hk gin din = (Inr (Rects rs), fr)" for rs fr
  proof -
    from that assms obtain dbl c2 c3 where
      "draw_layers hk gs1 dbl c2 = (None, graphics_of fr, c3)"
      by (auto simp: fastdraw_def split: if_splits prod.splits option.splits)
    then show ?thesis by (rule draw_layers_None)
  qed
  from eq(2) list_all2_collected2 [OF ok] vis none drawn show ?thesis
    unfolding eq(1) by blast
qed

theorem collection_pass_effects_witness:
  "collect ex_hooks [[ex_off]] ([], []) = (None, [[ex_off]], [], [PreDraw ex_off]) \<and>
   fastdraw ex_hooks [[ex_off]] [] =
     (Inr Py_False, \<lparr>graphics_of = [[ex_off]], dirty_of = [], calls_of = [PreDraw ex_off]\<rparr>) \<and>
   g_dirty ex_off = [Rect 1 1 2 2] \<and>
   collect ex_hooks [[ex_hidden]] ([], []) =
     (None, [[ex_hidden\<lparr>was_visible := False\<rparr>]], [Rect 20 0 10 10], [PreDraw ex_hidden]) \<and>
   fst (fastdraw ex_hooks [[ex_hidden]] []) = Inr (Rects [Rect 20 0 10 10]) \<and>
   map (map g_dirty) (graphics_of (snd (fastdraw ex_hooks [[ex_hidden]] []))) = [[[]]]"
proof -
  have c1: "collect ex_hooks [[ex_off]] ([], []) = (None, [[ex_off]], [], [PreDraw ex_off])"
    by (simp add: collect_def collect_g_def ex_hooks_def ex_off_def new_dirty_def
        local_dirty_def)
  have c2: "collect ex_hooks [[ex_hidden]] ([], []) =
     (None, [[ex_hidden\<lparr>was_visible := False\<rparr>]], [Rect 20 0 10 10], [PreDraw ex_hidden])"
    by (simp add: collect_def collect_g_def ex_hooks_def ex_hidden_def new_dirty_def
        local_dirty_def clip_def clip_lo_def clip_len_def Rect_def)
  have e1: "fst (fastdraw ex_hooks [[ex_hidden]] []) = Inr (Rects [Rect 20 0 10 10])"
    by code_simp
  have e2: "map (map g_dirty) (graphics_of (snd (fastdraw ex_hooks [[ex_hidden]] []))) = [[[]]]"
    by code_simp
  show ?thesis
    using collection_pass_effects [OF c1] collection_pass_effects [OF c2] c1 c2 e1 e2
    by (simp add: ex_off_def)
qed

section \<open>Failing callbacks\<close>

lemma trace_ext_refl: "trace_ext hk None c c"
  by (simp add: trace_ext_def)

lemma trace_ext_step: "outcome hk ev = res \<Longrightarrow> trace_ext hk res c (c @ [ev])"
  by (auto simp: trace_ext_def split: option.splits)

lemma trace_ext_trans:
  assumes "trace_ext hk None c c'" and "trace_ext hk res c' c''"
  shows "trace_ext hk res c c''"
proof -
  from assms(1) obtain n1 where n1: "c' = c @ n1" "\<forall>ev \<in> set n1. outcome hk ev = None"
    by (auto simp: trace_ext_def)
  from assms(2) obtain n2 where n2: "c'' = c' @ n2"
    "case res of None \<Rightarrow> (\<forall>ev \<in> set n2. outcome hk ev = None)
     | Some e \<Rightarrow> n2 \<noteq> [] \<and> outcome hk (last n2) = Some e \<and>
         (\<forall>ev \<in> set (butlast n2). outcome hk ev = None)"
    by (auto simp: trace_ext_def)
  show ?thesis
  proof (cases res)
    case None
    with n1 n2 show ?thesis
      by (auto simp: trace_ext_def)
  next
    case (Some e)
    with n2 have "n2 \<noteq> []" "outcome hk (last n2) = Some e"
      "\<forall>ev \<in> set (butlast n2). outcome hk ev = None" by auto
    then have "n1 @ n2 \<noteq> [] \<and> outcome hk (last (n1 @ n2)) = Some e \<and>
       (\<forall>ev \<in> set (butlast (n1 @ n2)). outcome hk ev = None)"
      using n1(2) by (auto simp: butlast_append)
    moreover have "c'' = c @ (n1 @ n2)" using n1 n2 by simp
    ultimately show ?thesis
      unfolding trace_ext_def Some by (intro exI [of _ "n1 @ n2"]) simp
  qed
qed

lemma for_each_trace:
  assumes step: "\<And>x s r x' s'. f x s = (r, x', s') \<Longrightarrow> trace_ext hk r (tr s) (tr s')"
    and "for_each f xs s = (r, xs', s')"
  shows "trace_ext hk r (tr s) (tr s')"
  using assms(2)
proof (induction xs arbitrary: s r xs' s')
  case Nil
  then show ?case by (simp add: trace_ext_refl)
next
  case (Cons x xs)
  obtain r1 x1 s1 where f1: "f x s = (r1, x1, s1)" by (cases "f x s") auto
  show ?case
  proof (cases r1)
    case None
    obtain r2 xs2 s2 where fe: "for_each f xs s1 = (r2, xs2, s2)"
      by (cases "for_each f xs s1") auto
    with Cons.prems f1 None have eq: "r = r2" "s' = s2" by auto
    from step [OF f1] None have "trace_ext hk None (tr s) (tr s1)" by simp
    moreover from Cons.IH [OF fe] have "trace_ext hk r2 (tr s1) (tr s2)" .
    ultimately show ?thesis unfolding eq by (rule trace_ext_trans)
  next
    case (Some e)
    with Cons.prems f1 have "r = Some e" "s' = s1" by auto
    with step [OF f1] Some show ?thesis by simp
  qed
qed

lemma collect_g_trace:
  "collect_g hk g st = (r, g', st') \<Longrightarrow> trace_ext hk r (snd st) (snd st')"
  by (auto simp: collect_g_def split: sum.splits intro!: trace_ext_step)

lemma collect_trace:
  assumes "collect hk gin st = (r, gs, st')"
  shows "trace_ext hk r (snd st) (snd st')"
proof -
  have inner: "trace_ext hk r (snd s) (snd s')"
    if "for_each (collect_g hk) xs s = (r, xs', s')" for xs s r xs' s'
    using that by (rule for_each_trace [where tr = snd, rotated]) (rule collect_g_trace)
  from assms have "for_each (for_each (collect_g hk)) gin st = (r, gs, st')"
    by (simp add: collect_def)
  then show ?thesis
    by (rule for_each_trace [where tr = snd, rotated]) (rule inner)
qed

lemma opaque_chain_trace:
  "opaque_chain hk gs r c = (res, v, c') \<Longrightarrow> trace_ext hk res c c'"
proof (induction gs arbitrary: r c)
  case Nil
  then show ?case by (auto simp: trace_ext_refl)
next
  case (Cons g gs)
  let ?r = "clip r (postrot_rect g)"
  show ?case
  proof (cases "opaque_in hk g ?r")
    case (Inl e)
    with Cons.prems show ?thesis
      by (auto simp: Let_def intro!: trace_ext_step)
  next
    case (Inr t)
    then have st: "trace_ext hk None c (c @ [OpaqueIn g ?r])"
      by (auto intro!: trace_ext_step)
    show ?thesis
    proof (cases "rw ?r > 0 \<and> rh ?r > 0 \<and> t")
      case True
      with Cons.prems Inr have "opaque_chain hk gs ?r (c @ [OpaqueIn g ?r]) = (res, v, c')"
        by (simp add: Let_def)
      from trace_ext_trans [OF st Cons.IH [OF this]] show ?thesis .
    next
      case False
      with Cons.prems Inr have "res = None" "c' = c @ [OpaqueIn g ?r]"
        by (auto simp: Let_def)
      with st show ?thesis by simp
    qed
  qed
qed

lemma layer_opaque_trace:
  "layer_opaque hk gs ds c = (res, l, c') \<Longrightarrow> trace_ext hk res c c'"
proof (induction ds arbitrary: c res l c')
  case Nil
  then show ?case by (auto simp: trace_ext_refl)
next
  case (Cons r ds)
  obtain r1 v c1 where oc: "opaque_chain hk gs r c = (r1, v, c1)"
    by (cases "opaque_chain hk gs r c") auto
  note t1 = opaque_chain_trace [OF oc]
  show ?case
  proof (cases r1)
    case None
    obtain r2 l2 c2 where lo: "layer_opaque hk gs ds c1 = (r2, l2, c2)"
      by (cases "layer_opaque hk gs ds c1") auto
    with Cons.prems oc None have eq: "res = r2" "c' = c2"
      by (auto split: prod.splits)
    from t1 None Cons.IH [OF lo] show ?thesis
      unfolding eq by (auto intro: trace_ext_trans)
  next
    case (Some e)
    with Cons.prems oc have "res = Some e" "c' = c1" by auto
    with t1 Some show ?thesis by simp
  qed
qed

lemma cull_trace:
  "cull hk graphics d dop c = (res, dbl, c') \<Longrightarrow> trace_ext hk res c c'"
proof (induction graphics arbitrary: dop c res dbl c')
  case Nil
  then show ?case by (auto simp: trace_ext_refl)
next
  case (Cons gs graphics)
  obtain r1 l c1 where lo: "layer_opaque hk gs d c = (r1, l, c1)"
    by (cases "layer_opaque hk gs d c") auto
  note t1 = layer_opaque_trace [OF lo]
  show ?case
  proof (cases r1)
    case None
    obtain r2 dbl2 c2 where cu: "cull hk graphics d (dop @ l) c1 = (r2, dbl2, c2)"
      by (cases "cull hk graphics d (dop @ l) c1") auto
    with Cons.prems lo None have eq: "res = r2" "c' = c2" by auto
    from t1 None Cons.IH [OF cu] show ?thesis
      unfolding eq by (auto intro: trace_ext_trans)
  next
    case (Some e)
    with Cons.prems lo have "res = Some e" "c' = c1" by auto
    with t1 Some show ?thesis by simp
  qed
qed

lemma draw_g_trace:
  "draw_g hk rs g c = (res, g', c') \<Longrightarrow> trace_ext hk res c c'"
  by (auto simp: draw_g_def Let_def trace_ext_refl split: if_splits sum.splits
      intro!: trace_ext_step)

lemma draw_layer_trace:
  assumes "draw_layer hk l c = (res, l', c')"
  shows "trace_ext hk res c c'"
proof -
  obtain gs' where "for_each (draw_g hk (snd l)) (fst l) c = (res, gs', c')"
    using assms by (auto simp: draw_layer_def split: prod.splits)
  then show ?thesis
    by (rule for_each_trace [where tr = "\<lambda>c. c", rotated]) (rule draw_g_trace)
qed

lemma draw_layers_trace:
  assumes "draw_layers hk gs dbl c = (res, gs', c')"
  shows "trace_ext hk res c c'"
proof -
  obtain ls where "for_each (draw_layer hk) (rev (zip gs dbl)) c = (res, ls, c')"
    using assms by (auto simp: draw_layers_def split: prod.splits)
  then show ?thesis
    by (rule for_each_trace [where tr = "\<lambda>c. c", rotated]) (rule draw_layer_trace)
qed

lemma fastdraw_trace:
  assumes "fastdraw hk gin din = (res, fr)"
  shows "trace_ext hk (case res of Inl e \<Rightarrow> Some e | Inr v \<Rightarrow> None) [] (calls_of fr)"
proof -
  obtain r1 gs1 d c1 where co: "collect hk gin (din, []) = (r1, gs1, d, c1)"
    by (cases "collect hk gin (din, [])") auto
  from collect_trace [OF co] have t1: "trace_ext hk r1 [] c1" by simp
  show ?thesis
  proof (cases r1)
    case (Some e)
    with assms co t1 show ?thesis by (auto simp: fastdraw_def)
  next
    case None
    note r1 = this
    show ?thesis
    proof (cases "d = []")
      case True
      with assms co r1 t1 show ?thesis by (auto simp: fastdraw_def)
    next
      case False
      obtain r2 dbl c2 where cu: "cull hk gs1 d [] c1 = (r2, dbl, c2)"
        by (cases "cull hk gs1 d [] c1") auto
      from trace_ext_trans [OF _ cull_trace [OF cu]] t1 r1
      have t2: "trace_ext hk r2 [] c2" by simp
      show ?thesis
      proof (cases r2)
        case (Some e)
        with assms co r1 False cu t2 show ?thesis by (auto simp: fastdraw_def)
      next
        case None
        note r2 = this
        obtain r3 gs2 c3 where dl: "draw_layers hk gs1 dbl c2 = (r3, gs2, c3)"
          by (cases "draw_layers hk gs1 dbl c2") auto
        from trace_ext_trans [OF _ draw_layers_trace [OF dl]] t2 r2
        have t3: "trace_ext hk r3 [] c3" by simp
        from assms co r1 False cu r2 dl t3 show ?thesis
          by (cases r3) (auto simp: fastdraw_def)
      qed
    qed
  qed
qed

lemma collect_gs_fail:
  "for_each (collect_g hk) gs st = (Some e, gs', st') \<Longrightarrow>
   \<exists>pre g post. gs = pre @ g # post \<and> gs' = map (collected hk) pre @ g # post \<and>
     pre_draw hk g = Inl e \<and> snd st' = snd st @ map PreDraw pre @ [PreDraw g]"
proof (induction gs arbitrary: st gs' st')
  case Nil
  then show ?case by simp
next
  case (Cons x xs)
  show ?case
  proof (cases "pre_draw hk x")
    case (Inl e')
    with Cons.prems have "e' = e" "gs' = x # xs" "snd st' = snd st @ [PreDraw x]"
      by (auto simp: collect_g_def)
    with Inl show ?thesis
      by (intro exI [of _ "[]"] exI [of _ x] exI [of _ xs]) simp
  next
    case (Inr x1)
    then have ok: "pre_draw_ok hk x" by (rule pre_draw_okI)
    let ?s1 = "(fst st @ new_dirty (hooked hk x), snd st @ [PreDraw x])"
    obtain r2 xs2 s2 where fe: "for_each (collect_g hk) xs ?s1 = (r2, xs2, s2)"
      by (cases "for_each (collect_g hk) xs ?s1") auto
    with Cons.prems have eq: "r2 = Some e" "gs' = collected hk x # xs2" "st' = s2"
      by (auto simp: collect_g_ok [OF ok])
    from Cons.IH [of ?s1 xs2 s2] fe eq obtain pre g post where
      p: "xs = pre @ g # post" "xs2 = map (collected hk) pre @ g # post"
      "pre_draw hk g = Inl e" "snd s2 = snd ?s1 @ map PreDraw pre @ [PreDraw g]"
      by blast
    show ?thesis
      using p eq by (intro exI [of _ "x # pre"] exI [of _ g] exI [of _ post]) simp
  qed
qed

lemma collect_fail:
  "collect hk gin st = (Some e, gs1, st') \<Longrightarrow>
   \<exists>pre g post. concat gin = pre @ g # post \<and>
     concat gs1 = map (collected hk) pre @ g # post \<and>
     pre_draw hk g = Inl e \<and> snd st' = snd st @ map PreDraw pre @ [PreDraw g]"
  unfolding collect_def
proof (induction gin arbitrary: st gs1 st')
  case Nil
  then show ?case by simp
next
  case (Cons gs gin)
  obtain r1 gs' s1 where fe1: "for_each (collect_g hk) gs st = (r1, gs', s1)"
    by (cases "for_each (collect_g hk) gs st") auto
  show ?case
  proof (cases r1)
    case (Some e')
    with Cons.prems fe1 have eq: "e' = e" "gs1 = gs' # gin" "st' = s1" by auto
    from collect_gs_fail [of hk gs st e gs' s1] fe1 Some eq obtain pre g post where
      p: "gs = pre @ g # post" "gs' = map (collected hk) pre @ g # post"
      "pre_draw hk g = Inl e" "snd s1 = snd st @ map PreDraw pre @ [PreDraw g]"
      by blast
    show ?thesis
      using p eq
      by (intro exI [of _ pre] exI [of _ g] exI [of _ "post @ concat gin"]) simp
  next
    case None
    with fe1 have "fst (for_each (collect_g hk) gs st) = None" by simp
    then have ok: "\<forall>g \<in> set gs. pre_draw_ok hk g" by (rule collect_gs_None)
    note fe1' = collect_gs_ok [OF ok, of st]
    let ?s1 = "(fst st @ concat (map (\<lambda>g. new_dirty (hooked hk g)) gs), snd st @ map PreDraw gs)"
    obtain r2 g2 s2 where fe: "for_each (for_each (collect_g hk)) gin ?s1 = (r2, g2, s2)"
      by (cases "for_each (for_each (collect_g hk)) gin ?s1") auto
    with Cons.prems fe1' have eq: "r2 = Some e" "gs1 = map (collected hk) gs # g2" "st' = s2"
      by auto
    from Cons.IH [of ?s1 g2 s2] fe eq obtain pre g post where
      p: "concat gin = pre @ g # post" "concat g2 = map (collected hk) pre @ g # post"
      "pre_draw hk g = Inl e" "snd s2 = snd ?s1 @ map PreDraw pre @ [PreDraw g]"
      by blast
    show ?thesis
      using p eq by (intro exI [of _ "gs @ pre"] exI [of _ g] exI [of _ post]) simp
  qed
qed

lemma opaque_events_refl: "opaque_events c c"
  by (simp add: opaque_events_def)

lemma opaque_events_trans:
  "opaque_events c c' \<Longrightarrow> opaque_events c' c'' \<Longrightarrow> opaque_events c c''"
  unfolding opaque_events_def by (metis UnE append.assoc set_append)

lemma opaque_events_step: "opaque_events c (c @ [OpaqueIn g r])"
  unfolding opaque_events_def by (intro exI [of _ "[OpaqueIn g r]"]) simp

lemma opaque_chain_events:
  "opaque_chain hk gs r c = (res, v, c') \<Longrightarrow> opaque_events c c'"
proof (induction gs arbitrary: r c)
  case Nil
  then show ?case by (auto simp: opaque_events_refl)
next
  case (Cons g gs)
  let ?r = "clip r (postrot_rect g)"
  note st = opaque_events_step [of c g ?r]
  show ?case
  proof (cases "opaque_in hk g ?r")
    case (Inl e)
    with Cons.prems st show ?thesis by (auto simp: Let_def)
  next
    case (Inr t)
    show ?thesis
    proof (cases "rw ?r > 0 \<and> rh ?r > 0 \<and> t")
      case True
      with Cons.prems Inr have "opaque_chain hk gs ?r (c @ [OpaqueIn g ?r]) = (res, v, c')"
        by (simp add: Let_def)
      from opaque_events_trans [OF st Cons.IH [OF this]] show ?thesis .
    next
      case False
      with Cons.prems Inr have "c' = c @ [OpaqueIn g ?r]"
        by (auto simp: Let_def)
      with st show ?thesis by simp
    qed
  qed
qed

lemma layer_opaque_events:
  "layer_opaque hk gs ds c = (res, l, c') \<Longrightarrow> opaque_events c c'"
proof (induction ds arbitrary: c res l c')
  case Nil
  then show ?case by (auto simp: opaque_events_refl)
next
  case (Cons r ds)
  obtain r1 v c1 where oc: "opaque_chain hk gs r c = (r1, v, c1)"
    by (cases "opaque_chain hk gs r c") auto
  note t1 = opaque_chain_events [OF oc]
  show ?case
  proof (cases r1)
    case None
    obtain r2 l2 c2 where lo: "layer_opaque hk gs ds c1 = (r2, l2, c2)"
      by (cases "layer_opaque hk gs ds c1") auto
    with Cons.prems oc None have eq: "c' = c2"
      by (auto split: prod.splits)
    from t1 Cons.IH [OF lo] show ?thesis
      unfolding eq by (rule opaque_events_trans)
  next
    case (Some e)
    with Cons.prems oc have "c' = c1" by auto
    with t1 show ?thesis by simp
  qed
qed

lemma cull_events:
  "cull hk graphics d dop c = (res, dbl, c') \<Longrightarrow> opaque_events c c'"
proof (induction graphics arbitrary: dop c res dbl c')
  case Nil
  then show ?case by (auto simp: opaque_events_refl)
next
  case (Cons gs graphics)
  obtain r1 l c1 where lo: "layer_opaque hk gs d c = (r1, l, c1)"
    by (cases "layer_opaque hk gs d c") auto
  note t1 = layer_opaque_events [OF lo]
  show ?case
  proof (cases r1)
    case None
    obtain r2 dbl2 c2 where cu: "cull hk graphics d (dop @ l) c1 = (r2, dbl2, c2)"
      by (cases "cull hk graphics d (dop @ l) c1") auto
    with Cons.prems lo None have eq: "c' = c2" by auto
    from t1 Cons.IH [OF cu] show ?thesis
      unfolding eq by (rule opaque_events_trans)
  next
    case (Some e)
    with Cons.prems lo have "c' = c1" by auto
    with t1 show ?thesis by simp
  qed
qed

lemma cull_fail_last:
  assumes "cull hk graphics d dop c = (Some e, dbl, c')"
  shows "\<exists>g r. c' \<noteq> [] \<and> last c' = OpaqueIn g r"
proof -
  from cull_trace [OF assms] obtain new where
    n: "c' = c @ new" "new \<noteq> []" by (auto simp: trace_ext_def)
  from cull_events [OF assms] obtain new' where
    n': "c' = c @ new'" "\<forall>ev \<in> set new'. \<exists>g r. ev = OpaqueIn g r"
    by (auto simp: opaque_events_def)
  from n n' have "new' = new" by simp
  with n n' have "last new \<in> set new" "\<forall>ev \<in> set new. \<exists>g r. ev = OpaqueIn g r" by auto
  then obtain g r where "last new = OpaqueIn g r" by blast
  with n show ?thesis by auto
qed

lemma cull_length:
  "cull hk graphics d dop c = (None, dbl, c') \<Longrightarrow> length dbl = length graphics"
proof (induction graphics arbitrary: dop c dbl c')
  case Nil
  then show ?case by simp
next
  case (Cons gs graphics)
  obtain r1 l c1 where lo: "layer_opaque hk gs d c = (r1, l, c1)"
    by (cases "layer_opaque hk gs d c") auto
  show ?case
  proof (cases r1)
    case None
    obtain r2 dbl2 c2 where cu: "cull hk graphics d (dop @ l) c1 = (r2, dbl2, c2)"
      by (cases "cull hk graphics d (dop @ l) c1") auto
    with Cons.prems lo None have eq: "r2 = None" "dbl = mk_disjoint d dop # dbl2" by auto
    from Cons.IH [of "dop @ l" c1 dbl2 c2] cu eq show ?thesis by simp
  next
    case (Some e)
    with Cons.prems lo show ?thesis by simp
  qed
qed

lemma draw_g_fail:
  "draw_g hk rs g c = (Some e, g', c') \<Longrightarrow> g' = g \<and> (\<exists>di. c' = c @ [Draw g di])"
  by (auto simp: draw_g_def Let_def split: if_splits sum.splits)

lemma for_each_draw_g_length:
  "for_each (draw_g hk rs) gs c = (res, gs', c') \<Longrightarrow> length gs' = length gs"
proof (induction gs arbitrary: c res gs' c')
  case Nil
  then show ?case by simp
next
  case (Cons g gs)
  obtain r g1 c1 where dg: "draw_g hk rs g c = (r, g1, c1)"
    by (cases "draw_g hk rs g c") auto
  show ?case
  proof (cases r)
    case None
    obtain r2 gs2 c2 where fe: "for_each (draw_g hk rs) gs c1 = (r2, gs2, c2)"
      by (cases "for_each (draw_g hk rs) gs c1") auto
    with Cons.prems dg None have "gs' = g1 # gs2" by auto
    with Cons.IH [OF fe] show ?thesis by simp
  next
    case (Some e)
    with Cons.prems dg show ?thesis by auto
  qed
qed

lemma for_each_draw_g_fail:
  "for_each (draw_g hk rs) gs c = (Some e, gs', c') \<Longrightarrow>
   \<exists>pre pre' g post di. gs = pre @ g # post \<and> gs' = pre' @ g # post \<and>
     length pre' = length pre \<and> (\<forall>x \<in> set pre'. g_dirty x = []) \<and>
     c' \<noteq> [] \<and> last c' = Draw g di"
proof (induction gs arbitrary: c gs' c')
  case Nil
  then show ?case by simp
next
  case (Cons g gs)
  obtain r g1 c1 where dg: "draw_g hk rs g c = (r, g1, c1)"
    by (cases "draw_g hk rs g c") auto
  show ?case
  proof (cases r)
    case None
    obtain r2 gs2 c2 where fe: "for_each (draw_g hk rs) gs c1 = (r2, gs2, c2)"
      by (cases "for_each (draw_g hk rs) gs c1") auto
    with Cons.prems dg None have eq: "r2 = Some e" "gs' = g1 # gs2" "c' = c2" by auto
    from Cons.IH [of c1 gs2 c2] fe eq obtain pre pre' x post di where
      p: "gs = pre @ x # post" "gs2 = pre' @ x # post" "length pre' = length pre"
      "\<forall>x \<in> set pre'. g_dirty x = []" "c2 \<noteq> []" "last c2 = Draw x di"
      by blast
    from dg None have "g_dirty g1 = []" by (auto dest: draw_g_None)
    with p eq show ?thesis
      by (intro exI [of _ "g # pre"] exI [of _ "g1 # pre'"] exI [of _ x] exI [of _ post]
          exI [of _ di]) simp
  next
    case (Some e')
    with Cons.prems dg have eq: "e' = e" "gs' = g1 # gs" "c' = c1" by auto
    from draw_g_fail [of hk rs g c e g1 c1] dg Some eq obtain di where
      "g1 = g" "c1 = c @ [Draw g di]" by auto
    with eq show ?thesis
      by (intro exI [of _ "[]"] exI [of _ "[]"] exI [of _ g] exI [of _ gs] exI [of _ di]) simp
  qed
qed

lemma for_each_draw_layer_fail:
  "for_each (draw_layer hk) ls c = (Some e, ls', c') \<Longrightarrow>
   \<exists>pre pre' g post di. concat (map fst ls) = pre @ g # post \<and>
     concat (map fst ls') = pre' @ g # post \<and>
     length pre' = length pre \<and> (\<forall>x \<in> set pre'. g_dirty x = []) \<and>
     c' \<noteq> [] \<and> last c' = Draw g di"
proof (induction ls arbitrary: c ls' c')
  case Nil
  then show ?case by simp
next
  case (Cons l ls)
  obtain r gs1 c1 where fe1: "for_each (draw_g hk (snd l)) (fst l) c = (r, gs1, c1)"
    by (cases "for_each (draw_g hk (snd l)) (fst l) c") auto
  then have dl: "draw_layer hk l c = (r, (gs1, snd l), c1)"
    by (simp add: draw_layer_def)
  show ?case
  proof (cases r)
    case None
    obtain r2 ls2 c2 where fe: "for_each (draw_layer hk) ls c1 = (r2, ls2, c2)"
      by (cases "for_each (draw_layer hk) ls c1") auto
    with Cons.prems dl None have eq: "r2 = Some e" "ls' = (gs1, snd l) # ls2" "c' = c2"
      by auto
    from Cons.IH [of c1 ls2 c2] fe eq obtain pre pre' x post di where
      p: "concat (map fst ls) = pre @ x # post" "concat (map fst ls2) = pre' @ x # post"
      "length pre' = length pre" "\<forall>x \<in> set pre'. g_dirty x = []" "c2 \<noteq> []"
      "last c2 = Draw x di"
      by blast
    from fe1 None have cl: "\<forall>g \<in> set gs1. g_dirty g = []" "length gs1 = length (fst l)"
      by (auto dest: for_each_draw_g_None for_each_draw_g_length)
    with p eq show ?thesis
      by (intro exI [of _ "fst l @ pre"] exI [of _ "gs1 @ pre'"] exI [of _ x]
          exI [of _ post] exI [of _ di]) auto
  next
    case (Some e')
    with Cons.prems dl have eq: "e' = e" "ls' = (gs1, snd l) # ls" "c' = c1" by auto
    from for_each_draw_g_fail [of hk "snd l" "fst l" c e gs1 c1] fe1 Some eq
    obtain pre pre' x post di where
      p: "fst l = pre @ x # post" "gs1 = pre' @ x # post" "length pre' = length pre"
      "\<forall>x \<in> set pre'. g_dirty x = []" "c1 \<noteq> []" "last c1 = Draw x di"
      by blast
    with eq show ?thesis
      by (intro exI [of _ pre] exI [of _ pre'] exI [of _ x]
          exI [of _ "post @ concat (map fst ls)"] exI [of _ di]) simp
  qed
qed

lemma draw_layers_fail:
  assumes "draw_layers hk gs dbl c = (Some e, gs', c')" and "length dbl = length gs"
  shows "\<exists>pre pre' g post di. concat (rev gs) = pre @ g # post \<and>
     concat (rev gs') = pre' @ g # post \<and>
     length pre' = length pre \<and> (\<forall>x \<in> set pre'. g_dirty x = []) \<and>
     c' \<noteq> [] \<and> last c' = Draw g di"
proof -
  obtain r ls c1 where fe: "for_each (draw_layer hk) (rev (zip gs dbl)) c = (r, ls, c1)"
    by (cases "for_each (draw_layer hk) (rev (zip gs dbl)) c") auto
  with assms have eq: "r = Some e" "gs' = rev (map fst ls)" "c' = c1"
    by (auto simp: draw_layers_def)
  have "map fst (rev (zip gs dbl)) = rev gs"
    using assms(2) by (simp add: rev_map [symmetric])
  with for_each_draw_layer_fail [of hk "rev (zip gs dbl)" c e ls c1] fe eq
  show ?thesis by simp
qed

text \<open>
  Claim C6, as stated, fails: nothing is rolled back.  Here \<open>_pre_draw\<close> raises on the
  second graphic of a layer; the call returns the error, and the first graphic, which
  was visible before and is hidden now, is left with \<open>was_visible = False\<close>.
\<close>

theorem failure_state_counterexample:
  "fst (fastdraw ex_fail_hooks [[ex_hidden, ex_bad]] []) = Inl (PyErr ''boom'') \<and>
   map (map was_visible) [[ex_hidden, ex_bad]] = [[True, True]] \<and>
   map (map was_visible) (graphics_of (snd (fastdraw ex_fail_hooks [[ex_hidden, ex_bad]] []))) =
     [[False, True]]"
  by code_simp

text \<open>
  Claim C6, amended.  When a callback raises, the call returns that error at once: the
  failing call is the last call made and every call before it returned.  The graphics
  are left as they are at that moment.  If \<open>_pre_draw\<close> raised, the graphics before the
  failing one have been through the first pass (\<open>was_visible\<close> set to \<open>visible\<close>), the
  failing one and those after it are untouched.  If \<open>_opaque_in\<close> raised, every graphic
  has been through the first pass and no \<open>_dirty\<close> has been assigned.  If \<open>_draw\<close> raised,
  the graphics redrawn before the failing one (layers from the last to the first) have
  \<open>_dirty = []\<close>, the failing one and those not reached are as the first pass left them.
\<close>

theorem failure_aborts_without_rollback:
  assumes "fastdraw hk gin din = (Inl e, fr)"
  shows "calls_of fr \<noteq> [] \<and> outcome hk (last (calls_of fr)) = Some e \<and>
     (\<forall>ev \<in> set (butlast (calls_of fr)). outcome hk ev = None) \<and>
     (case last (calls_of fr) of
        PreDraw g \<Rightarrow>
          (\<exists>pre post. concat gin = pre @ g # post \<and>
             concat (graphics_of fr) = map (collected hk) pre @ g # post)
      | OpaqueIn g r \<Rightarrow> graphics_of fr = map (map (collected hk)) gin
      | Draw g rs \<Rightarrow>
          (\<exists>pre pre' post. concat (rev (map (map (collected hk)) gin)) = pre @ g # post \<and>
             concat (rev (graphics_of fr)) = pre' @ g # post \<and> length pre' = length pre \<and>
             (\<forall>x \<in> set pre'. g_dirty x = [])))"
proof -
  from fastdraw_trace [OF assms]
  have tr: "calls_of fr \<noteq> []" "outcome hk (last (calls_of fr)) = Some e"
    "\<forall>ev \<in> set (butlast (calls_of fr)). outcome hk ev = None"
    by (auto simp: trace_ext_def)
  obtain r1 gs1 d c1 where co: "collect hk gin (din, []) = (r1, gs1, d, c1)"
    by (cases "collect hk gin (din, [])") auto
  have shape: "case last (calls_of fr) of
        PreDraw g \<Rightarrow>
          (\<exists>pre post. concat gin = pre @ g # post \<and>
             concat (graphics_of fr) = map (collected hk) pre @ g # post)
      | OpaqueIn g r \<Rightarrow> graphics_of fr = map (map (collected hk)) gin
      | Draw g rs \<Rightarrow>
          (\<exists>pre pre' post. concat (rev (map (map (collected hk)) gin)) = pre @ g # post \<and>
             concat (rev (graphics_of fr)) = pre' @ g # post \<and> length pre' = length pre \<and>
             (\<forall>x \<in> set pre'. g_dirty x = []))"
  proof (cases r1)
    case (Some e1)
    with assms co have eq: "e1 = e" "graphics_of fr = gs1" "calls_of fr = c1"
      by (auto simp: fastdraw_def)
    from collect_fail [of hk gin "(din, [])" e gs1 "(d, c1)"] co Some eq
    obtain pre g post where
      "concat gin = pre @ g # post" "concat gs1 = map (collected hk) pre @ g # post"
      "c1 = map PreDraw pre @ [PreDraw g]"
      by auto
    with eq show ?thesis by auto
  next
    case None
    note r1 = this
    with co have "fst (collect hk gin (din, [])) = None" by simp
    then have ok: "\<forall>g \<in> set (concat gin). pre_draw_ok hk g" by (rule collect_None)
    from collect_ok [OF ok, of "(din, [])"] co
    have gs1: "gs1 = map (map (collected hk)) gin" by simp
    from assms co r1 have dne: "d \<noteq> []"
      by (auto simp: fastdraw_def split: if_splits)
    obtain r2 dbl c2 where cu: "cull hk gs1 d [] c1 = (r2, dbl, c2)"
      by (cases "cull hk gs1 d [] c1") auto
    show ?thesis
    proof (cases r2)
      case (Some e2)
      with assms co r1 dne cu have eq: "graphics_of fr = gs1" "calls_of fr = c2"
        by (auto simp: fastdraw_def)
      from cull_fail_last [of hk gs1 d "[]" c1 e2 dbl c2] cu Some
      obtain g r where "last c2 = OpaqueIn g r" by auto
      with eq gs1 show ?thesis by simp
    next
      case None
      note r2 = this
      obtain r3 gs2 c3 where dl: "draw_layers hk gs1 dbl c2 = (r3, gs2, c3)"
        by (cases "draw_layers hk gs1 dbl c2") auto
      with assms co r1 dne cu r2
      have eq: "r3 = Some e" "graphics_of fr = gs2" "calls_of fr = c3"
        by (auto simp: fastdraw_def split: option.splits)
      from cu r2 have len: "length dbl = length gs1" by (auto dest: cull_length)
      from draw_layers_fail [of hk gs1 dbl c2 e gs2 c3] dl eq len
      obtain pre pre' g post di where
        "concat (rev gs1) = pre @ g # post" "concat (rev gs2) = pre' @ g # post"
        "length pre' = length pre" "\<forall>x \<in> set pre'. g_dirty x = []" "last c3 = Draw g di"
        by blast
      with eq gs1 show ?thesis by auto
    qed
  qed
  from tr shape show ?thesis by blast
qed

theorem failure_aborts_without_rollback_witness:
  "fastdraw ex_fail_hooks [[ex_hidden, ex_bad]] [] =
     (Inl (PyErr ''boom''),
      \<lparr>graphics_of = [[ex_hidden\<lparr>was_visible := False\<rparr>, ex_bad]],
       dirty_of = [Rect 20 0 10 10], calls_of = [PreDraw ex_hidden, PreDraw ex_bad]\<rparr>) \<and>
   outcome ex_fail_hooks (PreDraw ex_bad) = Some (PyErr ''boom'') \<and>
   outcome ex_fail_hooks (PreDraw ex_hidden) = None \<and>
   collected ex_fail_hooks ex_hidden = ex_hidden\<lparr>was_visible := False\<rparr>"
proof -
  have h: "fastdraw ex_fail_hooks [[ex_hidden, ex_bad]] [] =
     (Inl (PyErr ''boom''),
      \<lparr>graphics_of = [[ex_hidden\<lparr>was_visible := False\<rparr>, ex_bad]],
       dirty_of = [Rect 20 0 10 10], calls_of = [PreDraw ex_hidden, PreDraw ex_bad]\<rparr>)"
    by code_simp
  have c: "collected ex_fail_hooks ex_hidden = ex_hidden\<lparr>was_visible := False\<rparr>"
    by (simp add: collected_def hooked_def ex_fail_hooks_def ex_hidden_def)
  show ?thesis
    using failure_aborts_without_rollback [OF h] h c by simp
qed

section \<open>quicksort sorts\<close>

lemma scan_down_spec:
  "L \<le> R \<Longrightarrow>
   (\<forall>i. scan_down arr piv L R < i \<and> i \<le> R \<longrightarrow> piv \<le> arr ! i) \<and>
   (L < scan_down arr piv L R \<longrightarrow> arr ! scan_down arr piv L R < piv)"
proof (induction arr piv L R rule: scan_down.induct)
  case (1 arr piv L R)
  show ?case
  proof (cases "arr ! R \<ge> piv \<and> L < R")
    case True
    then have "L \<le> R - 1" by auto
    with 1(1) True have ih: "(\<forall>i. scan_down arr piv L (R - 1) < i \<and> i \<le> R - 1 \<longrightarrow> piv \<le> arr ! i) \<and>
      (L < scan_down arr piv L (R - 1) \<longrightarrow> arr ! scan_down arr piv L (R - 1) < piv)"
      by blast
    have eq: "scan_down arr piv L R = scan_down arr piv L (R - 1)"
      using True by (subst scan_down.simps) simp
    have "piv \<le> arr ! i" if "scan_down arr piv L (R - 1) < i" "i \<le> R" for i
    proof (cases "i = R")
      case True
      with \<open>arr ! R \<ge> piv \<and> L < R\<close> show ?thesis by simp
    next
      case False
      with that ih show ?thesis by auto
    qed
    with ih show ?thesis unfolding eq by blast
  next
    case False
    then have eq: "scan_down arr piv L R = R"
      by (subst scan_down.simps) auto
    from False show ?thesis unfolding eq by auto
  qed
qed

lemma scan_up_spec:
  "L \<le> R \<Longrightarrow>
   (\<forall>i. L \<le> i \<and> i < scan_up arr piv L R \<longrightarrow> arr ! i \<le> piv) \<and>
   (scan_up arr piv L R < R \<longrightarrow> piv < arr ! scan_up arr piv L R)"
proof (induction arr piv L R rule: scan_up.induct)
  case (1 arr piv L R)
  show ?case
  proof (cases "arr ! L \<le> piv \<and> L < R")
    case True
    then have "L + 1 \<le> R" by auto
    with 1(1) True have ih: "(\<forall>i. L + 1 \<le> i \<and> i < scan_up arr piv (L + 1) R \<longrightarrow> arr ! i \<le> piv) \<and>
      (scan_up arr piv (L + 1) R < R \<longrightarrow> piv < arr ! scan_up arr piv (L + 1) R)"
      by blast
    have eq: "scan_up arr piv L R = scan_up arr piv (L + 1) R"
      using True by (subst scan_up.simps) simp
    have "arr ! i \<le> piv" if "L \<le> i" "i < scan_up arr piv (L + 1) R" for i
    proof (cases "i = L")
      case True
      with \<open>arr ! L \<le> piv \<and> L < R\<close> show ?thesis by simp
    next
      case False
      with that ih show ?thesis by auto
    qed
    with ih show ?thesis unfolding eq by blast
  next
    case False
    then have eq: "scan_up arr piv L R = L"
      by (subst scan_up.simps) auto
    from False 1(2) show ?thesis unfolding eq by auto
  qed
qed

lemma hole_move:
  assumes "L < length arr" and "K < length arr" and "L \<noteq> K"
  shows "mset (arr[L := arr ! K, K := piv]) = mset (arr[L := piv])"
proof -
  have "arr[L := piv, K := (arr[L := piv]) ! L, L := (arr[L := piv]) ! K] =
      arr[L := arr ! K, K := piv]"
    using assms by (simp add: list_update_swap [of L K])
  with mset_swap [of L "arr[L := piv]" K] assms show ?thesis by simp
qed

lemma part_step_inv:
  assumes inv: "part_inv arr0 b e piv (arr, L, R)" and lt: "L < R"
  shows "part_inv arr0 b e piv (part_step arr piv L R)"
proof -
  define R1 where "R1 = scan_down arr piv L R"
  define arr1 where "arr1 = (if L < R1 then arr[L := arr ! R1] else arr)"
  define L1 where "L1 = (if L < R1 then L + 1 else L)"
  define L2 where "L2 = scan_up arr1 piv L1 R1"
  define arr2 where "arr2 = (if L2 < R1 then arr1[R1 := arr1 ! L2] else arr1)"
  define R2 where "R2 = (if L2 < R1 then R1 - 1 else R1)"
  have ps: "part_step arr piv L R = (arr2, L2, R2)"
    unfolding part_step_def Let_def R1_def arr1_def L1_def L2_def arr2_def R2_def ..
  from inv have len: "length arr = length arr0" and bL: "b \<le> L" and Re: "R < e"
    and e: "e \<le> length arr0" and ms: "mset (arr[L := piv]) = mset arr0"
    and out: "\<forall>i. i < b \<or> e \<le> i \<longrightarrow> arr ! i = arr0 ! i"
    and lo: "\<forall>i. b \<le> i \<and> i < L \<longrightarrow> arr ! i \<le> piv"
    and hi: "\<forall>i. R < i \<and> i < e \<longrightarrow> piv \<le> arr ! i"
    by (simp_all add: part_inv_def)
  from lt have LR: "L \<le> R" by simp
  have r1: "L \<le> R1" "R1 \<le> R"
    using scan_down_bounds [OF LR, of arr piv] by (simp_all add: R1_def)
  have d1: "\<forall>i. R1 < i \<and> i \<le> R \<longrightarrow> piv \<le> arr ! i" and d2: "L < R1 \<longrightarrow> arr ! R1 < piv"
    using scan_down_spec [OF LR, of arr piv] by (simp_all add: R1_def)
  have l1: "L1 \<le> R1" using r1 by (simp add: L1_def)
  have l2: "L1 \<le> L2" "L2 \<le> R1"
    using scan_up_bounds [OF l1, of arr1 piv] by (simp_all add: L2_def)
  have u1: "\<forall>i. L1 \<le> i \<and> i < L2 \<longrightarrow> arr1 ! i \<le> piv" and u2: "L2 < R1 \<longrightarrow> piv < arr1 ! L2"
    using scan_up_spec [OF l1, of arr1 piv] by (simp_all add: L2_def)
  have len1: "length arr1 = length arr0" by (simp add: arr1_def len)
  have len2: "length arr2 = length arr0" by (simp add: arr2_def len1)
  have ms1: "mset (arr1[R1 := piv]) = mset arr0"
  proof (cases "L < R1")
    case True
    then have "mset (arr[L := arr ! R1, R1 := piv]) = mset (arr[L := piv])"
      using r1 Re e len by (intro hole_move) simp_all
    with True ms show ?thesis by (simp add: arr1_def)
  next
    case False
    with r1 have "R1 = L" by simp
    with False ms show ?thesis by (simp add: arr1_def)
  qed
  have ms2: "mset (arr2[L2 := piv]) = mset arr0"
  proof (cases "L2 < R1")
    case True
    then have "mset (arr1[R1 := arr1 ! L2, L2 := piv]) = mset (arr1[R1 := piv])"
      using r1 Re e len1 by (intro hole_move) simp_all
    with True ms1 show ?thesis by (simp add: arr2_def)
  next
    case False
    with l2 have "L2 = R1" by simp
    with False ms1 show ?thesis by (simp add: arr2_def)
  qed
  have bounds: "b \<le> L2" "L2 \<le> R2" "R2 < e"
    using bL r1 l1 l2 Re by (auto simp: L1_def R2_def split: if_splits)
  have nth2: "arr2 ! i = (if i = R1 \<and> L2 < R1 then arr1 ! L2 else arr1 ! i)"
    if "i < length arr0" for i
    using that len1 by (simp add: arr2_def nth_list_update)
  have nth1: "arr1 ! i = (if i = L \<and> L < R1 then arr ! R1 else arr ! i)"
    if "i < length arr0" for i
    using that len by (simp add: arr1_def nth_list_update)
  have out2: "arr2 ! i = arr0 ! i" if "i < b \<or> e \<le> i" for i
  proof -
    from that bL r1 Re l2 have ne: "i \<noteq> L" "i \<noteq> R1" by auto
    then have "arr2 ! i = arr ! i"
      by (simp add: arr2_def arr1_def)
    with out that show ?thesis by auto
  qed
  have lo2: "arr2 ! i \<le> piv" if "b \<le> i" "i < L2" for i
  proof -
    from that l2 r1 Re e have i: "i < length arr0" "i \<noteq> R1" by auto
    then have a2: "arr2 ! i = arr1 ! i" by (simp add: nth2)
    show ?thesis
    proof (cases "i < L")
      case True
      with lo that i have "arr ! i \<le> piv" by simp
      with True i show ?thesis unfolding a2 by (simp add: nth1)
    next
      case False
      show ?thesis
      proof (cases "i = L")
        case True
        with that l2 have "L < R1" by simp
        with d2 True i show ?thesis unfolding a2 by (simp add: nth1)
      next
        case False
        with \<open>\<not> i < L\<close> have "L1 \<le> i" by (simp add: L1_def)
        with u1 that show ?thesis unfolding a2 by simp
      qed
    qed
  qed
  have hi2: "piv \<le> arr2 ! i" if "R2 < i" "i < e" for i
  proof -
    from that e have i: "i < length arr0" by simp
    show ?thesis
    proof (cases "i = R1")
      case True
      with that have "L2 < R1" by (auto simp: R2_def split: if_splits)
      with u2 True i show ?thesis by (simp add: nth2)
    next
      case False
      with that have gt: "R1 < i" by (auto simp: R2_def split: if_splits)
      with r1 have "i \<noteq> L" by simp
      with False i have "arr2 ! i = arr ! i" by (simp add: nth2 nth1)
      moreover have "piv \<le> arr ! i"
        using gt d1 hi that by (cases "i \<le> R") auto
      ultimately show ?thesis by simp
    qed
  qed
  show ?thesis
    unfolding ps part_inv_def
    using len2 bounds e ms2 out2 lo2 hi2 by simp
qed

lemma part_loop_inv:
  "part_inv arr0 b e piv st \<Longrightarrow> part_loop piv st = (arr', p) \<Longrightarrow>
   part_inv arr0 b e piv (arr', p, p)"
proof (induction piv st rule: part_loop.induct)
  case (1 piv arr L R)
  show ?case
  proof (cases "L < R")
    case True
    from part_step_inv [OF 1(2) True]
    have "part_inv arr0 b e piv (part_step arr piv L R)" .
    moreover have "part_loop piv (part_step arr piv L R) = (arr', p)"
      using 1(3) True by (subst (asm) part_loop.simps) simp
    ultimately show ?thesis using 1(1) [OF True] by blast
  next
    case False
    then have "part_loop piv (arr, L, R) = (arr, L)"
      by (subst part_loop.simps) simp
    with 1(3) have eq: "arr' = arr" "p = L" by simp_all
    from 1(2) False have "R = L" by (simp add: part_inv_def)
    with 1(2) show ?thesis unfolding eq by simp
  qed
qed

lemma partition_seg_spec:
  assumes "b < e" and "e \<le> length arr" and "partition_seg arr b e = (arr', p)"
  shows "length arr' = length arr" and "mset arr' = mset arr" and "b \<le> p" and "p < e"
    and "\<forall>i. i < b \<or> e \<le> i \<longrightarrow> arr' ! i = arr ! i"
    and "\<forall>i. b \<le> i \<and> i < p \<longrightarrow> arr' ! i \<le> arr' ! p"
    and "\<forall>i. p < i \<and> i < e \<longrightarrow> arr' ! p \<le> arr' ! i"
proof -
  define piv where "piv = arr ! b"
  obtain a1 where pl: "part_loop piv (arr, b, e - 1) = (a1, p)" and a': "arr' = a1[p := piv]"
    using assms(3) by (auto simp: partition_seg_def Let_def piv_def split: prod.splits)
  have "part_inv arr b e piv (arr, b, e - 1)"
    using assms(1,2) by (auto simp: part_inv_def piv_def)
  from part_loop_inv [OF this pl]
  have len: "length a1 = length arr" and bp: "b \<le> p" and pe: "p < e"
    and ms: "mset (a1[p := piv]) = mset arr"
    and out: "\<forall>i. i < b \<or> e \<le> i \<longrightarrow> a1 ! i = arr ! i"
    and lo: "\<forall>i. b \<le> i \<and> i < p \<longrightarrow> a1 ! i \<le> piv"
    and hi: "\<forall>i. p < i \<and> i < e \<longrightarrow> piv \<le> a1 ! i"
    by (simp_all add: part_inv_def)
  from pe assms(2) len have p: "p < length a1" by simp
  show "length arr' = length arr" by (simp add: a' len)
  show "mset arr' = mset arr" by (simp add: a' ms)
  show "b \<le> p" by (rule bp)
  show "p < e" by (rule pe)
  show "\<forall>i. i < b \<or> e \<le> i \<longrightarrow> arr' ! i = arr ! i"
    using out bp pe by (auto simp: a')
  show "\<forall>i. b \<le> i \<and> i < p \<longrightarrow> arr' ! i \<le> arr' ! p"
    using lo p by (auto simp: a')
  show "\<forall>i. p < i \<and> i < e \<longrightarrow> arr' ! p \<le> arr' ! i"
    using hi p by (auto simp: a')
qed

text \<open>A value of the partitioned segment is a value of the segment before.\<close>

lemma same_outside_take_drop:
  assumes "length xs = length ys" and "\<forall>i. i < b \<or> e \<le> i \<longrightarrow> xs ! i = ys ! i"
  shows "take b xs = take b ys" and "drop e xs = drop e ys"
  using assms by (auto intro!: nth_equalityI)

lemma segment_values:
  fixes xs ys :: "'a list"
  assumes len: "length xs = length ys" and ms: "mset xs = mset ys"
    and out: "\<forall>i. i < b \<or> e \<le> i \<longrightarrow> xs ! i = ys ! i"
    and be: "b \<le> e" "e \<le> length ys" and i: "b \<le> i" "i < e"
  shows "\<exists>k. b \<le> k \<and> k < e \<and> xs ! i = ys ! k"
proof -
  let ?seg = "\<lambda>zs. take (e - b) (drop b zs)"
  have split: "zs = take b zs @ ?seg zs @ drop e zs" if "length zs = length ys" for zs :: "'a list"
  proof -
    have "drop b zs = take (e - b) (drop b zs) @ drop (e - b) (drop b zs)"
      by (rule append_take_drop_id [symmetric])
    moreover have "drop (e - b) (drop b zs) = drop e zs"
      using be by simp
    ultimately have "drop b zs = ?seg zs @ drop e zs" by simp
    then have "take b zs @ drop b zs = take b zs @ ?seg zs @ drop e zs" by simp
    then show ?thesis by simp
  qed
  from same_outside_take_drop [OF len out]
  have td: "take b xs = take b ys" "drop e xs = drop e ys" .
  have "mset xs = mset (take b xs) + mset (?seg xs) + mset (drop e xs)"
    by (subst split [OF len]) simp
  moreover have "mset ys = mset (take b ys) + mset (?seg ys) + mset (drop e ys)"
    by (subst split [OF refl]) simp
  ultimately have "mset (?seg xs) = mset (?seg ys)"
    using ms td by simp
  then have sets: "set (?seg xs) = set (?seg ys)" by (rule mset_eq_setD)
  have "xs ! i = ?seg xs ! (i - b)"
    using i be len by simp
  moreover have "i - b < length (?seg xs)"
    using i be len by simp
  ultimately have "xs ! i \<in> set (?seg xs)"
    by (metis nth_mem)
  with sets have "xs ! i \<in> set (?seg ys)" by simp
  then obtain m where m: "m < length (?seg ys)" "?seg ys ! m = xs ! i"
    by (auto simp: in_set_conv_nth)
  then have "m < e - b" "ys ! (b + m) = xs ! i"
    using be by simp_all
  then show ?thesis
    by (intro exI [of _ "b + m"]) simp
qed

lemma same_seg_Cons: "same_seg (s # st) i j \<longleftrightarrow> (fst s \<le> i \<and> j < snd s) \<or> same_seg st i j"
  by (auto simp: same_seg_def)

lemma qs_inv_pop:
  assumes "qs_inv arr ((b, e) # st)" and "\<not> int b < int e - 1"
  shows "qs_inv arr st"
proof -
  have ss: "\<not> same_seg ((b, e) # st) i j" if "i < j" "\<not> same_seg st i j" for i j
    using that assms(2) by (auto simp: same_seg_Cons)
  from assms(1) have a: "sorted_wrt seg_disj st" "\<forall>s \<in> set st. snd s \<le> length arr"
    and ord: "\<And>i j. i < j \<Longrightarrow> j < length arr \<Longrightarrow> \<not> same_seg ((b, e) # st) i j \<Longrightarrow>
        arr ! i \<le> arr ! j"
    by (auto simp: qs_inv_def)
  have "arr ! i \<le> arr ! j" if "i < j" "j < length arr" "\<not> same_seg st i j" for i j
    using ord [OF that(1,2) ss [OF that(1,3)]] .
  with a show ?thesis
    unfolding qs_inv_def by blast
qed

lemma set_push_segs: "set (push_segs b p e) = {(b, p), (p + 1, e)}"
  by (auto simp: push_segs_def)

lemma qs_inv_split:
  assumes inv: "qs_inv arr ((b, e) # st)" and be: "int b < int e - 1"
    and ps: "partition_seg arr b e = (arr', p)"
  shows "qs_inv arr' (push_segs b p e @ st)"
proof -
  from inv have disj: "\<forall>t \<in> set st. seg_disj (b, e) t" "sorted_wrt seg_disj st"
    and el: "e \<le> length arr" "\<forall>s \<in> set st. snd s \<le> length arr"
    and ord: "\<And>i j. i < j \<Longrightarrow> j < length arr \<Longrightarrow> \<not> same_seg ((b, e) # st) i j \<Longrightarrow>
        arr ! i \<le> arr ! j"
    by (auto simp: qs_inv_def)
  from be have lt: "b < e" by simp
  note sp = partition_seg_spec [OF lt el(1) ps]
  have d1: "sorted_wrt seg_disj (push_segs b p e)"
    by (simp add: push_segs_def seg_disj_def)
  have d2: "\<forall>s \<in> set (push_segs b p e). \<forall>t \<in> set st. seg_disj s t"
    using disj(1) sp(3,4) by (auto simp: set_push_segs seg_disj_def)
  have dis: "sorted_wrt seg_disj (push_segs b p e @ st)"
    using d1 d2 disj(2) by (simp add: sorted_wrt_append)
  have lens: "\<forall>s \<in> set (push_segs b p e @ st). snd s \<le> length arr'"
    using el sp(1,4) by (auto simp: set_push_segs)
  have val: "arr' ! i \<le> arr' ! j"
    if ij: "i < j" "j < length arr'" and ns: "\<not> same_seg (push_segs b p e @ st) i j" for i j
  proof -
    from ns have n1: "\<not> (b \<le> i \<and> j < p)" and n2: "\<not> (p + 1 \<le> i \<and> j < e)"
      and n3: "\<not> same_seg st i j"
      by (auto simp: same_seg_def set_push_segs)
    from ij sp(1) have jl: "j < length arr" by simp
    have outside: "\<not> same_seg ((b, e) # st) k m"
      if "k < m" "(b \<le> k \<and> k < e \<and> e \<le> m) \<or> (k < b \<and> b \<le> m \<and> m < e)" for k m
    proof
      assume "same_seg ((b, e) # st) k m"
      with that obtain t where t: "t \<in> set st" "fst t \<le> k" "m < snd t"
        by (auto simp: same_seg_Cons same_seg_def)
      with disj(1) have "seg_disj (b, e) t" by simp
      with t that lt show False by (auto simp: seg_disj_def)
    qed
    consider (both) "b \<le> i" "j < e" | (left) "b \<le> i" "i < e" "e \<le> j"
      | (right) "i < b" "b \<le> j" "j < e" | (none) "i < b \<and> (j < b \<or> e \<le> j) \<or> e \<le> i"
      using ij by linarith
    then show ?thesis
    proof cases
      case both
      with n1 n2 ij have "i \<le> p" "p \<le> j" by auto
      with both ij sp(6,7) have "arr' ! i \<le> arr' ! p" "arr' ! p \<le> arr' ! j"
        by (auto simp: le_less)
      then show ?thesis by simp
    next
      case left
      from segment_values [OF sp(1,2,5) _ el(1) left(1,2)] lt
      obtain k where k: "b \<le> k" "k < e" "arr' ! i = arr ! k" by auto
      from left sp(5) have "arr' ! j = arr ! j" by simp
      moreover have "arr ! k \<le> arr ! j"
        using k left outside [of k j] jl by (intro ord) auto
      ultimately show ?thesis using k by simp
    next
      case right
      from segment_values [OF sp(1,2,5) _ el(1) right(2,3)] lt
      obtain k where k: "b \<le> k" "k < e" "arr' ! j = arr ! k" by auto
      from right sp(5) have "arr' ! i = arr ! i" by simp
      moreover have "arr ! i \<le> arr ! k"
        using k right outside [of i k] el(1) by (intro ord) auto
      ultimately show ?thesis using k by simp
    next
      case none
      with ij sp(5) have "arr' ! i = arr ! i" "arr' ! j = arr ! j" by auto
      moreover have "\<not> same_seg ((b, e) # st) i j"
        using none n3 ij by (auto simp: same_seg_Cons)
      ultimately show ?thesis using ord [OF ij(1) jl] by simp
    qed
  qed
  from dis lens val show ?thesis
    unfolding qs_inv_def by blast
qed

lemma qs_loop_correct:
  "qs_inv arr st \<Longrightarrow> sorted (qs_loop arr st) \<and> mset (qs_loop arr st) = mset arr"
proof (induction arr st rule: qs_loop.induct)
  case (1 arr)
  then have "\<forall>i j. i < j \<longrightarrow> j < length arr \<longrightarrow> arr ! i \<le> arr ! j"
    by (simp add: qs_inv_def same_seg_def)
  then have "sorted arr" by (simp add: sorted_iff_nth_mono_less)
  then show ?case by (simp add: qs_loop.simps)
next
  case (2 arr b e st)
  show ?case
  proof (cases "int b < int e - 1")
    case True
    obtain arr' p where ps: "partition_seg arr b e = (arr', p)"
      by (cases "partition_seg arr b e") auto
    from qs_inv_split [OF 2(3) True ps]
    have "qs_inv arr' (push_segs b p e @ st)" .
    with 2(1) [OF True] ps
    have "sorted (qs_loop arr' (push_segs b p e @ st)) \<and>
        mset (qs_loop arr' (push_segs b p e @ st)) = mset arr'"
      by simp
    moreover from True 2(3) have "b < e" "e \<le> length arr"
      by (auto simp: qs_inv_def)
    from partition_seg_spec(2) [OF this ps] have "mset arr' = mset arr" .
    moreover have "qs_loop arr ((b, e) # st) = qs_loop arr' (push_segs b p e @ st)"
      using True ps by (simp add: qs_loop.simps)
    ultimately show ?thesis by simp
  next
    case False
    from qs_inv_pop [OF 2(3) False] have "qs_inv arr st" .
    with 2(2) [OF False] False show ?thesis by (simp add: qs_loop.simps)
  qed
qed

theorem quicksort_sort: "quicksort arr = sort arr"
proof -
  have "qs_inv arr [(0, length arr)]"
    by (auto simp: qs_inv_def same_seg_def)
  from qs_loop_correct [OF this] show ?thesis
    unfolding quicksort_def by (intro properties_for_sort [symmetric]) simp_all
qed

lemma sorted_quicksort: "distinct xs \<Longrightarrow> sorted_wrt (<) (quicksort xs)"
  by (simp add: quicksort_sort strict_sorted_iff)

lemma set_quicksort: "set (quicksort xs) = set xs"
  by (simp add: quicksort_sort)

section \<open>The scan emits the runs of each row\<close>

lemma scan_cell_tracks:
  assumes that: "c = (grid ! ((length e0 - 1) * i + j) = 2)"
    and "tracks e0 i opt s" and "j < length e0 - 1"
  shows "\<exists>opt' out. scan_row j opt (c # cs) = out @ scan_row (j + 1) opt' cs \<and>
      tracks e0 i opt' (scan_cell e0 e1 grid i s j) \<and>
      rs_acc (scan_cell e0 e1 grid i s j) = rs_acc s @ map (c_run_rect e0 e1 i) out"
proof (cases opt)
  case None
  with assms have nin: "\<not> in_rect s" by (simp add: tracks_def)
  show ?thesis
  proof (cases c)
    case True
    with that nin None show ?thesis
      by (intro exI [of _ "Some j"] exI [of _ "[]"]) (simp add: scan_cell_def tracks_def)
  next
    case False
    with that nin None show ?thesis
      by (intro exI [of _ "None"] exI [of _ "[]"]) (simp add: scan_cell_def tracks_def)
  qed
next
  case (Some a)
  with assms have inr: "in_rect s" "r_i s = i" "r_left s = e0 ! a" by (simp_all add: tracks_def)
  show ?thesis
  proof (cases c)
    case True
    with that inr Some show ?thesis
      by (intro exI [of _ "Some a"] exI [of _ "[]"]) (simp add: scan_cell_def tracks_def)
  next
    case False
    with that inr Some show ?thesis
      by (intro exI [of _ "None"] exI [of _ "[(a, j)]"])
        (simp add: scan_cell_def tracks_def end_rect_def c_run_rect_def Let_def)
  qed
qed

lemma scan_cells_row:
  assumes "n = length e0 - 1" and "length cs = n"
    and "\<forall>j < n. cs ! j = (grid ! (n * i + j) = 2)"
  shows "j0 \<le> n \<Longrightarrow> tracks e0 i opt s \<Longrightarrow>
    rs_acc (flush e0 e1 (foldl (scan_cell e0 e1 grid i) s [j0..<n])) =
      rs_acc s @ map (c_run_rect e0 e1 i) (scan_row j0 opt (drop j0 cs)) \<and>
    (in_rect (foldl (scan_cell e0 e1 grid i) s [j0..<n]) \<longrightarrow>
       r_i (foldl (scan_cell e0 e1 grid i) s [j0..<n]) = i)"
proof (induction "n - j0" arbitrary: j0 opt s)
  case 0
  then have j0: "j0 = n" by simp
  show ?case
  proof (cases opt)
    case None
    with 0 j0 assms show ?thesis by (simp add: tracks_def flush_def)
  next
    case (Some a)
    with 0 j0 assms show ?thesis
      by (simp add: tracks_def flush_def end_rect_def c_run_rect_def Let_def)
  qed
next
  case (Suc k)
  then have lt: "j0 < n" by simp
  then have upt: "[j0..<n] = j0 # [j0 + 1..<n]" by (simp add: upt_rec)
  from lt assms(2) have dr: "drop j0 cs = cs ! j0 # drop (j0 + 1) cs"
    by (simp add: Cons_nth_drop_Suc)
  from lt assms have c: "cs ! j0 = (grid ! ((length e0 - 1) * i + j0) = 2)" by simp
  from lt assms have lt': "j0 < length e0 - 1" by simp
  from scan_cell_tracks [OF c Suc.prems(2) lt', of "drop (j0 + 1) cs" e1]
  obtain opt' out where
    o: "scan_row j0 opt (cs ! j0 # drop (j0 + 1) cs) = out @ scan_row (j0 + 1) opt' (drop (j0 + 1) cs)"
    "tracks e0 i opt' (scan_cell e0 e1 grid i s j0)"
    "rs_acc (scan_cell e0 e1 grid i s j0) = rs_acc s @ map (c_run_rect e0 e1 i) out"
    by blast
  from Suc.hyps(2) lt have k: "k = n - (j0 + 1)" by simp
  from lt have le: "j0 + 1 \<le> n" by simp
  from Suc.hyps(1) [OF k le o(2)] o(1,3) show ?case
    unfolding upt dr by simp
qed

lemma in_rect_end_rect [simp]: "\<not> in_rect (end_rect e1 right s)"
  by (simp add: end_rect_def Let_def)

lemma scan_cell_flush:
  "in_rect s \<longrightarrow> r_i s \<noteq> i \<Longrightarrow>
   scan_cell e0 e1 grid i s j = scan_cell e0 e1 grid i (flush e0 e1 s) j"
  by (cases "in_rect s") (simp_all add: scan_cell_def flush_def)

lemma row_cells_nth:
  "length (row_cells e0 grid i) = length e0 - 1"
  "j < length e0 - 1 \<Longrightarrow> row_cells e0 grid i ! j = (grid ! ((length e0 - 1) * i + j) = 2)"
  by (simp_all add: row_cells_def)

lemma scan_one_row:
  fixes e0 e1 grid i s
  defines "s' \<equiv> foldl (scan_cell e0 e1 grid i) s [0..<length e0 - 1]"
  assumes "in_rect s \<longrightarrow> r_i s < i"
  shows "rs_acc (flush e0 e1 s') =
      rs_acc (flush e0 e1 s) @ map (c_run_rect e0 e1 i) (scan_row 0 None (row_cells e0 grid i)) \<and>
    (in_rect s' \<longrightarrow> r_i s' < i + 1)"
proof (cases "length e0 - 1 = 0")
  case True
  then have "row_cells e0 grid i = []" by (simp add: row_cells_def)
  with True assms show ?thesis by auto
next
  case False
  then have upt: "[0..<length e0 - 1] = 0 # [1..<length e0 - 1]" by (simp add: upt_rec)
  from assms(2) have ne: "in_rect s \<longrightarrow> r_i s \<noteq> i" by auto
  have s': "s' = foldl (scan_cell e0 e1 grid i) (flush e0 e1 s) [0..<length e0 - 1]"
    unfolding s'_def upt using scan_cell_flush [OF ne] by simp
  have tr: "tracks e0 i None (flush e0 e1 s)"
    by (simp add: tracks_def flush_def)
  have "rs_acc (flush e0 e1 (foldl (scan_cell e0 e1 grid i) (flush e0 e1 s) [0..<length e0 - 1])) =
      rs_acc (flush e0 e1 s) @
        map (c_run_rect e0 e1 i) (scan_row 0 None (drop 0 (row_cells e0 grid i))) \<and>
    (in_rect (foldl (scan_cell e0 e1 grid i) (flush e0 e1 s) [0..<length e0 - 1]) \<longrightarrow>
       r_i (foldl (scan_cell e0 e1 grid i) (flush e0 e1 s) [0..<length e0 - 1]) = i)"
    by (rule scan_cells_row [OF refl row_cells_nth(1) _ _ tr]) (simp_all add: row_cells_nth)
  then show ?thesis
    unfolding s' by simp
qed

lemma scan_all_rows:
  fixes e0 e1 grid
  defines "step \<equiv> \<lambda>s i. foldl (scan_cell e0 e1 grid i) s [0..<length e0 - 1]"
  assumes "\<not> in_rect s0"
  shows "rs_acc (flush e0 e1 (foldl step s0 [0..<m])) =
      rs_acc s0 @ concat (map (\<lambda>i. map (c_run_rect e0 e1 i) (scan_row 0 None (row_cells e0 grid i)))
        [0..<m]) \<and>
    (in_rect (foldl step s0 [0..<m]) \<longrightarrow> r_i (foldl step s0 [0..<m]) < m)"
proof (induction m)
  case 0
  with assms show ?case by (simp add: flush_def)
next
  case (Suc m)
  let ?s = "foldl step s0 [0..<m]"
  from Suc have a: "in_rect ?s \<longrightarrow> r_i ?s < m" by simp
  have st: "foldl step s0 [0..<Suc m] = foldl (scan_cell e0 e1 grid m) ?s [0..<length e0 - 1]"
    by (simp add: step_def)
  from scan_one_row [OF a, of e0 e1 grid] Suc show ?case
    unfolding st by simp
qed

lemma scan_grid_scan_row:
  "scan_grid e0 e1 grid =
     concat (map (\<lambda>i. map (c_run_rect e0 e1 i) (scan_row 0 None (row_cells e0 grid i)))
       [0..<length e1 - 1])"
proof -
  let ?s0 = "\<lparr>in_rect = False, r_i = 0, r_left = 0, rs_acc = []\<rparr>"
  have "\<not> in_rect ?s0" by simp
  from scan_all_rows [OF this, of e0 e1 grid "length e1 - 1"]
  show ?thesis
    by (simp add: scan_grid_def Let_def flush_def)
qed

lemma set_all_ranges: "set (all_ranges n) = {(a, b). a < b \<and> b \<le> n}"
proof -
  have "(a, b) \<in> set (all_ranges n) \<longleftrightarrow> a < b \<and> b \<le> n" for a b
  proof
    assume "(a, b) \<in> set (all_ranges n)"
    then show "a < b \<and> b \<le> n"
      by (auto simp del: upt_Suc simp: all_ranges_def)
  next
    assume ab: "a < b \<and> b \<le> n"
    then have "a \<in> set [0..<n]" "(a, b) \<in> set (map (\<lambda>b. (a, b)) [a + 1..<n + 1])"
      by (auto simp del: upt_Suc)
    then show "(a, b) \<in> set (all_ranges n)"
      unfolding all_ranges_def by (auto simp del: upt_Suc)
  qed
  then show ?thesis by auto
qed

lemma sorted_pairs_concat:
  "sorted_wrt (<) as \<Longrightarrow> (\<And>a. sorted_wrt (<) (f a)) \<Longrightarrow>
   sorted_wrt (<) (concat (map (\<lambda>a. map (\<lambda>b. (a, b)) (f a)) as))"
  for as :: "nat list" and f :: "nat \<Rightarrow> nat list"
proof (induction as)
  case Nil
  then show ?case by simp
next
  case (Cons a as)
  have "sorted_wrt (<) (map (\<lambda>b. (a, b)) (f a))"
    using Cons.prems(2) [of a] by (simp add: sorted_wrt_map)
  moreover have "sorted_wrt (<) (concat (map (\<lambda>a. map (\<lambda>b. (a, b)) (f a)) as))"
    using Cons by simp
  moreover have "\<forall>x \<in> set (map (\<lambda>b. (a, b)) (f a)).
      \<forall>y \<in> set (concat (map (\<lambda>a. map (\<lambda>b. (a, b)) (f a)) as)). x < y"
    using Cons.prems(1) by auto
  ultimately show ?case by (simp add: sorted_wrt_append)
qed

lemma sorted_all_ranges: "sorted_wrt (<) (all_ranges n)"
  unfolding all_ranges_def
  by (rule sorted_pairs_concat) (simp_all del: upt_Suc add: strict_sorted_iff)

lemma set_runs_of: "set (runs_of cs) = {(a, b). is_run cs a b}"
  by (auto simp: runs_of_def set_all_ranges is_run_def)

lemma sorted_runs_of: "sorted_wrt (<) (runs_of cs)"
  unfolding runs_of_def by (rule sorted_wrt_filter) (rule sorted_all_ranges)

lemma scan_row_sorted:
  "(\<forall>a. opt = Some a \<longrightarrow> a < j) \<Longrightarrow>
   sorted_wrt (<) (scan_row j opt cs) \<and>
   (\<forall>p \<in> set (scan_row j opt cs). opt = Some (fst p) \<or> j \<le> fst p)"
proof (induction j opt cs rule: scan_row.induct)
  case (1 j)
  then show ?case by simp
next
  case (2 j a)
  then show ?case by simp
next
  case (3 j c cs)
  then show ?case by (cases c) (auto simp: less_Suc_eq_le)
next
  case (4 j a c cs)
  show ?case
  proof (cases c)
    case True
    with 4 show ?thesis by (auto simp: less_Suc_eq)
  next
    case False
    with 4 have ih: "sorted_wrt (<) (scan_row (j + 1) None cs)"
      "\<forall>p \<in> set (scan_row (j + 1) None cs). j + 1 \<le> fst p"
      by auto
    from 4(3) have "a < j" by simp
    with ih have "\<forall>p \<in> set (scan_row (j + 1) None cs). (a, j) < p"
      by (auto simp: less_prod_def)
    with ih False show ?thesis by auto
  qed
qed

lemma is_run_last:
  assumes "is_run cs a b"
  shows "0 < b \<and> b \<le> length cs \<and> cs ! (b - 1)"
proof -
  from assms have ab: "a < b" "b \<le> length cs" "\<forall>j \<in> {a..<b}. cs ! j"
    by (simp_all add: is_run_def)
  from ab(1) have "b - 1 \<in> {a..<b}" by auto
  with ab show ?thesis by auto
qed

lemma is_run_next: "is_run cs a b \<Longrightarrow> b < length cs \<Longrightarrow> \<not> cs ! b"
  by (auto simp: is_run_def)

lemma is_run_start_unique:
  assumes "is_run cs a b" and "is_run cs a' b"
  shows "a = a'"
proof (rule ccontr)
  assume ne: "a \<noteq> a'"
  have *: False if r: "is_run cs x b" "is_run cs y b" and lt: "x < y" for x y
  proof -
    from r(2) lt have "\<not> cs ! (y - 1)" by (auto simp: is_run_def)
    moreover from r lt have "y - 1 \<in> {x..<b}" by (auto simp: is_run_def)
    with r(1) have "cs ! (y - 1)" unfolding is_run_def by blast
    ultimately show False by simp
  qed
  from ne consider "a < a'" | "a' < a" by (cases a a' rule: linorder_cases) auto
  then show False using * assms by cases blast+
qed

lemma open_run:
  assumes "open_ok pre (Some a)" and "suf = [] \<or> \<not> hd suf"
  shows "is_run (pre @ suf) a (length pre)"
proof -
  from assms(1) have a: "a < length pre" "\<forall>k \<in> {a..<length pre}. pre ! k"
    "a = 0 \<or> \<not> pre ! (a - 1)"
    by (auto simp: open_ok_def)
  have "\<forall>j \<in> {a..<length pre}. (pre @ suf) ! j"
    using a(2) by (simp add: nth_append)
  moreover have "a = 0 \<or> \<not> (pre @ suf) ! (a - 1)"
    using a(1,3) by (auto simp: nth_append)
  moreover have "length pre = length (pre @ suf) \<or> \<not> (pre @ suf) ! length pre"
    using assms(2) by (cases suf) (auto simp: nth_append)
  ultimately show ?thesis
    using a(1) unfolding is_run_def by simp
qed

lemma no_run_ends_closed:
  assumes "open_ok pre None" and "is_run (pre @ suf) a b"
  shows "b \<noteq> length pre"
proof
  assume b: "b = length pre"
  from is_run_last [OF assms(2)] b have "0 < length pre" "(pre @ suf) ! (length pre - 1)"
    by auto
  then have "pre \<noteq> []" "last pre" by (auto simp: nth_append last_conv_nth)
  with assms(1) show False by (simp add: open_ok_def)
qed

lemma no_run_ends_open:
  assumes "is_run (pre @ True # suf) a b"
  shows "b \<noteq> length pre"
proof
  assume b: "b = length pre"
  with is_run_next [OF assms] show False by (simp add: nth_append)
qed

lemma open_ok_snoc:
  "open_ok pre None \<Longrightarrow> open_ok (pre @ [True]) (Some (length pre))"
  "open_ok (pre @ [False]) None"
  "open_ok pre (Some a) \<Longrightarrow> open_ok (pre @ [True]) (Some a)"
proof -
  show "open_ok (pre @ [False]) None" by (simp add: open_ok_def)
next
  assume "open_ok pre None"
  then show "open_ok (pre @ [True]) (Some (length pre))"
    by (cases "pre = []") (auto simp: open_ok_def nth_append last_conv_nth)
next
  assume "open_ok pre (Some a)"
  then show "open_ok (pre @ [True]) (Some a)"
    by (auto simp: open_ok_def nth_append less_Suc_eq)
qed

lemma scan_row_set:
  "open_ok pre opt \<Longrightarrow>
   set (scan_row (length pre) opt suf) = {(a, b). is_run (pre @ suf) a b \<and> length pre \<le> b}"
proof (induction suf arbitrary: pre opt)
  case Nil
  show ?case
  proof (cases opt)
    case None
    have "\<not> (is_run pre a b \<and> length pre \<le> b)" for a b
      using no_run_ends_closed [of pre "[]" a b] Nil None is_run_last [of pre a b] by auto
    with None show ?thesis by simp
  next
    case (Some a)
    from open_run [of pre a "[]"] Nil Some have r: "is_run pre a (length pre)" by simp
    have "a' = a \<and> b = length pre" if "is_run pre a' b" "length pre \<le> b" for a' b
    proof -
      from is_run_last [OF that(1)] that(2) have b: "b = length pre" by simp
      with that(1) r is_run_start_unique show ?thesis by blast
    qed
    then have "{(a', b). is_run pre a' b \<and> length pre \<le> b} \<subseteq> {(a, length pre)}"
      by blast
    moreover from r have "{(a, length pre)} \<subseteq> {(a', b). is_run pre a' b \<and> length pre \<le> b}"
      by simp
    ultimately have "{(a', b). is_run pre a' b \<and> length pre \<le> b} = {(a, length pre)}"
      by (rule subset_antisym)
    with Some show ?thesis by simp
  qed
next
  case (Cons c suf)
  show ?case
  proof (cases opt)
    case None
    have nb: "b \<noteq> length pre" if "is_run (pre @ c # suf) a b" for a b
      using no_run_ends_closed [of pre "c # suf" a b] Cons.prems None that by simp
    have ok: "open_ok (pre @ [c]) (if c then Some (length pre) else None)"
      using open_ok_snoc(1,2) [of pre] Cons.prems None by (cases c) simp_all
    from Cons.IH [OF ok]
    have "set (scan_row (length pre + 1) (if c then Some (length pre) else None) suf) =
        {(a, b). is_run (pre @ c # suf) a b \<and> length pre + 1 \<le> b}"
      by simp
    also have "\<dots> = {(a, b). is_run (pre @ c # suf) a b \<and> length pre \<le> b}"
    proof -
      have "length pre + 1 \<le> b \<longleftrightarrow> length pre \<le> b" if "is_run (pre @ c # suf) a b" for a b
        using nb [OF that] by arith
      then show ?thesis by auto
    qed
    finally show ?thesis using None by (cases c) simp_all
  next
    case (Some a)
    show ?thesis
    proof (cases c)
      case True
      have nb: "b \<noteq> length pre" if "is_run (pre @ c # suf) a b" for a b
        using no_run_ends_open [of pre suf a b] that True by simp
      have ok: "open_ok (pre @ [c]) (Some a)"
        using open_ok_snoc(3) [of pre a] Cons.prems Some True by simp
      from Cons.IH [OF ok]
      have "set (scan_row (length pre + 1) (Some a) suf) =
          {(a, b). is_run (pre @ c # suf) a b \<and> length pre + 1 \<le> b}"
        by simp
      also have "\<dots> = {(a, b). is_run (pre @ c # suf) a b \<and> length pre \<le> b}"
      proof -
      have "length pre + 1 \<le> b \<longleftrightarrow> length pre \<le> b" if "is_run (pre @ c # suf) a b" for a b
        using nb [OF that] by arith
      then show ?thesis by auto
    qed
      finally show ?thesis using Some True by simp
    next
      case False
      have ok: "open_ok (pre @ [c]) None"
        using open_ok_snoc(2) [of pre] False by simp
      from open_run [of pre a "c # suf"] Cons.prems Some False
      have r: "is_run (pre @ c # suf) a (length pre)" by simp
      from Cons.IH [OF ok]
      have "set (scan_row (length pre + 1) None suf) =
          {(a, b). is_run (pre @ c # suf) a b \<and> length pre + 1 \<le> b}"
        by simp
      moreover have "{(a, b). is_run (pre @ c # suf) a b \<and> length pre \<le> b} =
          insert (a, length pre) {(a, b). is_run (pre @ c # suf) a b \<and> length pre + 1 \<le> b}"
      proof -
        have "length pre \<le> b \<longleftrightarrow> (a', b) = (a, length pre) \<or> length pre + 1 \<le> b"
          if "is_run (pre @ c # suf) a' b" for a' b
          using is_run_start_unique [OF r, of a'] that by (cases "b = length pre") auto
        with r show ?thesis by auto
      qed
      ultimately show ?thesis using Some False by simp
    qed
  qed
qed

lemma scan_row_runs_of: "scan_row 0 None cs = runs_of cs"
proof (rule strict_sorted_equal)
  show "sorted_wrt (<) (scan_row 0 None cs)"
    using scan_row_sorted [of None 0 cs] by simp
  show "sorted_wrt (<) (runs_of cs)" by (rule sorted_runs_of)
  have "open_ok [] None" by (simp add: open_ok_def)
  from scan_row_set [OF this, of cs]
  show "set (scan_row 0 None cs) = set (runs_of cs)"
    by (simp add: set_runs_of)
qed

lemma scan_grid_emit_rows: "scan_grid e0 e1 grid = c_emit_rows e0 e1 grid"
  by (simp add: scan_grid_scan_row c_emit_rows_def scan_row_runs_of)

lemma mk_disjoint_c_emit_rows:
  "mk_disjoint add rm =
     c_emit_rows (quicksort (fst (get_edges add rm))) (quicksort (snd (get_edges add rm)))
       (mk_grid (quicksort (fst (get_edges add rm))) (quicksort (snd (get_edges add rm))) add rm)"
  by (simp add: mk_disjoint_def Let_def scan_grid_emit_rows)

text \<open>
  Where the differences of the edges are values of \<open>int\<close>, the rectangle the code builds
  for a run has the width of the run and the height of the row.
\<close>

lemma c_sub_id: "int_ok (a - b) \<Longrightarrow> c_sub a b = a - b"
  by (simp add: c_sub_def wrap_id)

lemma c_run_rect_exact:
  assumes "diffs_ok e0" and "diffs_ok e1"
    and "k < length e1 - 1" and "a < length e0" and "b < length e0"
  shows "c_run_rect e0 e1 k (a, b) = run_rect e0 e1 k (a, b)"
proof -
  from assms(1,4,5) have "int_ok (e0 ! b - e0 ! a)" by (simp add: diffs_ok_def)
  moreover from assms(2,3) have "int_ok (e1 ! (k + 1) - e1 ! k)" by (simp add: diffs_ok_def)
  ultimately show ?thesis by (simp add: c_run_rect_def run_rect_def c_sub_id)
qed

lemma c_emit_rows_exact:
  assumes x: "diffs_ok e0" and y: "diffs_ok e1"
  shows "c_emit_rows e0 e1 grid = emit_rows e0 e1 grid"
proof -
  have "map (c_run_rect e0 e1 k) (runs_of (row_cells e0 grid k)) =
      map (run_rect e0 e1 k) (runs_of (row_cells e0 grid k))" if k: "k < length e1 - 1" for k
  proof (rule map_cong [OF refl])
    fix ab assume "ab \<in> set (runs_of (row_cells e0 grid k))"
    then have "is_run (row_cells e0 grid k) (fst ab) (snd ab)"
      by (auto simp add: set_runs_of)
    then have "fst ab < snd ab" "snd ab \<le> length e0 - 1"
      by (simp_all add: is_run_def row_cells_def)
    then have "fst ab < length e0" "snd ab < length e0" by simp_all
    from c_run_rect_exact [OF x y k this]
    show "c_run_rect e0 e1 k ab = run_rect e0 e1 k ab" by simp
  qed
  then have "map (\<lambda>k. map (c_run_rect e0 e1 k) (runs_of (row_cells e0 grid k))) [0..<length e1 - 1] =
      map (\<lambda>k. map (run_rect e0 e1 k) (runs_of (row_cells e0 grid k))) [0..<length e1 - 1]"
    by (intro map_cong refl) simp
  then show ?thesis unfolding c_emit_rows_def emit_rows_def by (rule arg_cong)
qed

lemma fits_edges:
  assumes "fits (add @ rm)"
  shows "diffs_ok (quicksort (fst (get_edges add rm)))"
    and "diffs_ok (quicksort (snd (get_edges add rm)))"
proof -
  from assms have c: "\<forall>r \<in> set add \<union> set rm. c_rect r" by (simp add: fits_def)
  from assms get_edges_c_rect [OF c]
  show "diffs_ok (quicksort (fst (get_edges add rm)))"
    and "diffs_ok (quicksort (snd (get_edges add rm)))"
    by (simp_all add: fits_def diffs_ok_def set_quicksort)
qed

lemma mk_disjoint_emit_rows:
  assumes "fits (add @ rm)"
  shows "mk_disjoint add rm =
     emit_rows (quicksort (fst (get_edges add rm))) (quicksort (snd (get_edges add rm)))
       (mk_grid (quicksort (fst (get_edges add rm))) (quicksort (snd (get_edges add rm))) add rm)"
  unfolding mk_disjoint_c_emit_rows by (rule c_emit_rows_exact [OF fits_edges [OF assms]])

text \<open>
  Claim C8, as stated, fails.  Two rectangles side by side, each \<open>2000000000\<close> wide, give
  the x-edges \<open>- 2000000000\<close>, \<open>0\<close> and \<open>2000000000\<close> and one row of two marked cells, which
  is one run.  The run is \<open>4000000000\<close> wide; the code's difference of its edges is
  \<open>- 294967296\<close>, and that is the width of the rectangle it returns.
\<close>

theorem wide_run_counterexample:
  "c_rect (Rect (- 2000000000) 0 2000000000 1) \<and> c_rect (Rect 0 0 2000000000 1) \<and>
   quicksort (fst (get_edges [Rect (- 2000000000) 0 2000000000 1, Rect 0 0 2000000000 1] [])) =
     [- 2000000000, 0, 2000000000] \<and>
   quicksort (snd (get_edges [Rect (- 2000000000) 0 2000000000 1, Rect 0 0 2000000000 1] [])) =
     [0, 1] \<and>
   mk_grid [- 2000000000, 0, 2000000000] [0, 1]
     [Rect (- 2000000000) 0 2000000000 1, Rect 0 0 2000000000 1] [] = [2, 2] \<and>
   runs_of [True, True] = [(0, 2)] \<and>
   run_rect [- 2000000000, 0, 2000000000] [0, 1] 0 (0, 2) = Rect (- 2000000000) 0 4000000000 1 \<and>
   mk_disjoint [Rect (- 2000000000) 0 2000000000 1, Rect 0 0 2000000000 1] [] =
     [Rect (- 2000000000) 0 (- 294967296) 1]"
  by code_simp

text \<open>
  Claim C8, amended.  The edges are in increasing order, and the rectangles \<open>mk_disjoint\<close>
  returns are, row by row from the first to the last and within a row from left to
  right, one for each maximal run of cells equal to 2: rows are never merged.  The rectangle of a run is at the left edge of the
  run and the top edge of the row, and its width and its height are the code's
  differences of the edges.  For lists that fit, these are the width of the run and the
  height of the row.
\<close>

theorem mk_disjoint_rows:
  "mk_disjoint add rm =
     c_emit_rows (quicksort (fst (get_edges add rm))) (quicksort (snd (get_edges add rm)))
       (mk_grid (quicksort (fst (get_edges add rm))) (quicksort (snd (get_edges add rm))) add rm) \<and>
   sorted_wrt (<) (quicksort (fst (get_edges add rm))) \<and>
   sorted_wrt (<) (quicksort (snd (get_edges add rm))) \<and>
   (fits (add @ rm) \<longrightarrow>
      mk_disjoint add rm =
        emit_rows (quicksort (fst (get_edges add rm))) (quicksort (snd (get_edges add rm)))
          (mk_grid (quicksort (fst (get_edges add rm))) (quicksort (snd (get_edges add rm))) add rm))"
proof -
  have "mk_disjoint add rm =
     c_emit_rows (quicksort (fst (get_edges add rm))) (quicksort (snd (get_edges add rm)))
       (mk_grid (quicksort (fst (get_edges add rm))) (quicksort (snd (get_edges add rm))) add rm)"
    unfolding mk_disjoint_def Let_def scan_grid_emit_rows ..
  moreover have "c_emit_rows (quicksort (fst (get_edges add rm))) (quicksort (snd (get_edges add rm)))
       (mk_grid (quicksort (fst (get_edges add rm))) (quicksort (snd (get_edges add rm))) add rm) =
     emit_rows (quicksort (fst (get_edges add rm))) (quicksort (snd (get_edges add rm)))
       (mk_grid (quicksort (fst (get_edges add rm))) (quicksort (snd (get_edges add rm))) add rm)"
    if "fits (add @ rm)"
    by (rule c_emit_rows_exact [OF fits_edges [OF that]])
  moreover have "sorted_wrt (<) (quicksort (fst (get_edges add rm)))"
    "sorted_wrt (<) (quicksort (snd (get_edges add rm)))"
    by (simp_all add: sorted_quicksort get_edges_distinct)
  ultimately show ?thesis by simp
qed

theorem mk_disjoint_rows_witness:
  "fits ([Rect 0 0 10 10, Rect 0 10 10 10] @ []) \<and>
   mk_grid [0, 10] [0, 10, 20] [Rect 0 0 10 10, Rect 0 10 10 10] [] = [2, 2] \<and>
   runs_of [True] = [(0, 1)] \<and>
   c_emit_rows [0, 10] [0, 10, 20] [2, 2] = [Rect 0 0 10 10, Rect 0 10 10 10] \<and>
   mk_disjoint [Rect 0 0 10 10, Rect 0 10 10 10] [] = [Rect 0 0 10 10, Rect 0 10 10 10]"
proof -
  have f: "fits ([Rect 0 0 10 10, Rect 0 10 10 10] @ [])"
    by code_simp
  have e: "quicksort (fst (get_edges [Rect 0 0 10 10, Rect 0 10 10 10] [])) = [0, 10]"
    "quicksort (snd (get_edges [Rect 0 0 10 10, Rect 0 10 10 10] [])) = [0, 10, 20]"
    by code_simp+
  have g: "mk_grid [0, 10] [0, 10, 20] [Rect 0 0 10 10, Rect 0 10 10 10] [] = [2, 2]"
    by code_simp
  have r: "runs_of [True] = [(0, 1)]"
    by code_simp
  have "emit_rows [0, 10] [0, 10, 20] [2, 2] = [Rect 0 0 10 10, Rect 0 10 10 10]"
    "c_emit_rows [0, 10] [0, 10, 20] [2, 2] = [Rect 0 0 10 10, Rect 0 10 10 10]"
    by code_simp+
  with mk_disjoint_rows [of "[Rect 0 0 10 10, Rect 0 10 10 10]" "[]"] f e g r
  show ?thesis by simp
qed

section \<open>The marks of the grid\<close>

lemma find_idx_nth:
  "distinct e \<Longrightarrow> k < length e \<Longrightarrow> 0 \<le> i \<Longrightarrow> i \<le> int k \<Longrightarrow> find_idx e (e ! k) i = int k"
proof (induction e "e ! k" i rule: find_idx.induct)
  case (1 arr i)
  from 1(3,4,5) have il: "i < int (length arr)" "nat i < length arr" by auto
  show ?case
  proof (cases "arr ! nat i = arr ! k")
    case True
    with 1(2,3) il have "nat i = k" by (simp add: nth_eq_iff_index_eq)
    with True il 1(4) show ?thesis
      by (subst find_idx.simps) simp
  next
    case False
    then have "nat i \<noteq> k" by auto
    with 1(4,5) have "i + 1 \<le> int k" "0 \<le> i + 1" by auto
    with 1(1) [OF il(1) False 1(2,3)] have "find_idx arr (arr ! k) (i + 1) = int k" by simp
    with False il show ?thesis
      by (subst find_idx.simps) simp
  qed
qed

lemma sorted_nth_less:
  "sorted_wrt (<) e \<Longrightarrow> i < j \<Longrightarrow> j < length e \<Longrightarrow> e ! i < e ! j"
  for e :: "int list"
  by (simp add: sorted_wrt_iff_nth_less)

lemma sorted_nth_le:
  "sorted_wrt (<) e \<Longrightarrow> i \<le> j \<Longrightarrow> j < length e \<Longrightarrow> e ! i \<le> e ! j"
  for e :: "int list"
  using sorted_nth_less [of e i j] by (cases "i = j") auto

lemma sorted_nth_less_iff:
  "sorted_wrt (<) e \<Longrightarrow> i < length e \<Longrightarrow> j < length e \<Longrightarrow> e ! i < e ! j \<longleftrightarrow> i < j"
  for e :: "int list"
  using sorted_nth_less [of e i j] sorted_nth_le [of e j i]
  by (cases "i < j") auto

lemma sorted_nth_le_iff:
  "sorted_wrt (<) e \<Longrightarrow> i < length e \<Longrightarrow> j < length e \<Longrightarrow> e ! i \<le> e ! j \<longleftrightarrow> i \<le> j"
  for e :: "int list"
  using sorted_nth_less_iff [of e j i] by auto

text \<open>The rows and columns the marking loop computes for a rectangle whose edges are in the lists.\<close>

lemma find_pair:
  assumes "sorted_wrt (<) e" and "x \<in> set e" and "x + d \<in> set e" and "0 < d"
  shows "\<exists>k0 k1. k0 < k1 \<and> k1 < length e \<and> e ! k0 = x \<and> e ! k1 = x + d \<and>
    find_idx e x 0 = int k0 \<and> find_idx e (x + d) (find_idx e x 0) = int k1"
proof -
  from assms(1) have d: "distinct e" by (simp add: strict_sorted_iff)
  from assms(2,3) obtain k0 k1 where k: "k0 < length e" "e ! k0 = x" "k1 < length e" "e ! k1 = x + d"
    by (auto simp: in_set_conv_nth)
  with assms(4) have "e ! k0 < e ! k1" by simp
  with sorted_nth_less_iff [OF assms(1) k(1,3)] have lt: "k0 < k1" by simp
  from find_idx_nth [OF d k(1), of 0] k(2) have f0: "find_idx e x 0 = int k0" by simp
  from find_idx_nth [OF d k(3), of "int k0"] k(4) lt
  have "find_idx e (x + d) (int k0) = int k1" by simp
  with f0 k lt show ?thesis by auto
qed

text \<open>
  Marking is a fold of single updates over the list of the cells of a rectangle; a
  cell marked twice with the same flag holds what it held after the first mark.
\<close>

lemma foldl_upd_concat:
  "foldl (\<lambda>g k. foldl (upd flag) g (F k)) grid ks = foldl (upd flag) grid (concat (map F ks))"
  by (induction ks arbitrary: grid) simp_all

lemma mark_rect_cells: "mark_rect e0 e1 flag grid r = foldl (upd flag) grid (cells_of e0 e1 r)"
proof -
  have inner: "foldl (mark_cell e0 flag k) g ls = foldl (upd flag) g (map (cell_index e0 k) ls)"
    for k g ls
    by (induction ls arbitrary: g) (simp_all add: mark_cell_def upd_def)
  show ?thesis
    unfolding mark_rect_def cells_of_def Let_def inner
    by (simp add: foldl_upd_concat)
qed

lemma foldl_mark_rect:
  "foldl (mark_rect e0 e1 flag) grid rs =
     foldl (upd flag) grid (concat (map (cells_of e0 e1) rs))"
  by (induction rs arbitrary: grid) (simp_all add: mark_rect_cells)

lemma length_foldl_upd [simp]: "length (foldl (upd flag) g ms) = length g"
  by (induction ms arbitrary: g) (simp_all add: upd_def)

lemma nth_foldl_upd:
  "m < length g \<Longrightarrow>
   foldl (upd flag) g ms ! m = (if m \<in> set ms then (g ! m) OR flag else g ! m)"
proof (induction ms arbitrary: g)
  case Nil
  then show ?case by simp
next
  case (Cons a ms)
  have "m < length (upd flag g a)" using Cons.prems by (simp add: upd_def)
  from Cons.IH [OF this]
  have ih: "foldl (upd flag) (upd flag g a) ms ! m =
      (if m \<in> set ms then (upd flag g a ! m) OR flag else upd flag g a ! m)" .
  have u: "upd flag g a ! m = (if m = a then (g ! m) OR flag else g ! m)"
    using Cons.prems by (simp add: upd_def nth_list_update)
  have "foldl (upd flag) g (a # ms) ! m = foldl (upd flag) (upd flag g a) ms ! m"
    by simp
  also have "\<dots> = (if m \<in> set ms then (if m = a then (g ! m) OR flag else g ! m) OR flag
      else (if m = a then (g ! m) OR flag else g ! m))"
    unfolding ih u ..
  also have "\<dots> = (if m \<in> set (a # ms) then (g ! m) OR flag else g ! m)"
    by (simp add: or.assoc)
  finally show ?case .
qed

lemma mk_grid_nth:
  assumes "m < nat ((int (length e0) - 1) * (int (length e1) - 1))"
  shows "mk_grid e0 e1 add rm ! m = 2 \<longleftrightarrow>
     m \<in> set (concat (map (cells_of e0 e1) add)) \<and>
     m \<notin> set (concat (map (cells_of e0 e1) rm))"
proof -
  let ?g0 = "replicate (nat ((int (length e0) - 1) * (int (length e1) - 1))) (0::int)"
  let ?g1 = "foldl (upd 2) ?g0 (concat (map (cells_of e0 e1) add))"
  have g: "mk_grid e0 e1 add rm = foldl (upd 1) ?g1 (concat (map (cells_of e0 e1) rm))"
    by (simp add: mk_grid_def Let_def foldl_mark_rect)
  have m0: "m < length ?g0" using assms by simp
  have 1: "?g1 ! m = (if m \<in> set (concat (map (cells_of e0 e1) add)) then 2 else 0)"
    using nth_foldl_upd [OF m0, of 2 "concat (map (cells_of e0 e1) add)"] assms by simp
  have m1: "m < length ?g1" using assms by simp
  have "mk_grid e0 e1 add rm ! m =
      (if m \<in> set (concat (map (cells_of e0 e1) rm)) then (?g1 ! m) OR 1 else ?g1 ! m)"
    unfolding g by (rule nth_foldl_upd [OF m1])
  then show ?thesis unfolding 1 by simp
qed

text \<open>
  With sorted edges that contain the edges of the rectangle, the cells a rectangle marks
  are the cells that lie inside it.
\<close>

lemma set_upto_nat: "{int a..int b - 1} = int ` {a..<b}"
proof (rule set_eqI)
  fix x
  show "x \<in> {int a..int b - 1} \<longleftrightarrow> x \<in> int ` {a..<b}"
  proof
    assume "x \<in> {int a..int b - 1}"
    then have "x = int (nat x)" "nat x \<in> {a..<b}" by auto
    then show "x \<in> int ` {a..<b}" by (rule image_eqI)
  next
    assume "x \<in> int ` {a..<b}"
    then obtain n where "x = int n" "a \<le> n" "n < b" by auto
    then show "x \<in> {int a..int b - 1}" by simp
  qed
qed

lemma int_pred: "0 < n \<Longrightarrow> int n - 1 = int (n - 1)"
  by (cases n) auto

lemma cell_index_nat: "0 < length e0 \<Longrightarrow> cell_index e0 (int k) (int l) = (length e0 - 1) * k + l"
proof -
  assume "0 < length e0"
  then have e: "int (length e0) - 1 = int (length e0 - 1)" by (rule int_pred)
  have "(int (length e0) - 1) * int k + int l = int ((length e0 - 1) * k + l)"
    by (simp only: e of_nat_mult of_nat_add)
  then show ?thesis unfolding cell_index_def by (simp only: nat_int)
qed

lemma grid_index_unique:
  fixes W :: nat
  assumes "l < W" and "l' < W" and "W * k + l = W * k' + l'"
  shows "k = k' \<and> l = l'"
proof -
  from assms(1) have W: "0 < W" by simp
  have "(W * k + l) div W = k" "(W * k' + l') div W = k'"
    using assms(1,2) W by simp_all
  with assms(3) have "k = k'" by simp
  with assms(3) show ?thesis by simp
qed

lemma cells_of_mem:
  assumes s0: "sorted_wrt (<) e0" and s1: "sorted_wrt (<) e1"
    and ed: "nondegenerate r \<longrightarrow> has_edges e0 e1 r"
    and k: "k < length e1 - 1" and l: "l < length e0 - 1"
  shows "(length e0 - 1) * k + l \<in> set (cells_of e0 e1 r) \<longleftrightarrow>
     nondegenerate r \<and> cell_in e0 e1 r k l"
proof (cases "nondegenerate r")
  case False
  then have "cells_of e0 e1 r = []" by (auto simp: cells_of_def nondegenerate_def)
  with False show ?thesis by simp
next
  case True
  then have pos: "0 < rw r" "0 < rh r" by (simp_all add: nondegenerate_def)
  from True ed have he: "rx r \<in> set e0" "rx r + rw r \<in> set e0" "ry r \<in> set e1"
    "ry r + rh r \<in> set e1"
    and fit: "c_add (rx r) (rw r) = rx r + rw r" "c_add (ry r) (rh r) = ry r + rh r"
    by (simp_all add: has_edges_def)
  from find_pair [OF s0 he(1,2) pos(1)] obtain c0 c1 where
    c: "c0 < c1" "c1 < length e0" "e0 ! c0 = rx r" "e0 ! c1 = rx r + rw r"
    "find_idx e0 (rx r) 0 = int c0"
    "find_idx e0 (rx r + rw r) (find_idx e0 (rx r) 0) = int c1"
    by blast
  from find_pair [OF s1 he(3,4) pos(2)] obtain k0 k1 where
    kk: "k0 < k1" "k1 < length e1" "e1 ! k0 = ry r" "e1 ! k1 = ry r + rh r"
    "find_idx e1 (ry r) 0 = int k0"
    "find_idx e1 (ry r + rh r) (find_idx e1 (ry r) 0) = int k1"
    by blast
  let ?W = "length e0 - 1"
  from l have len0: "0 < length e0" by auto
  have "cells_of e0 e1 r =
      concat (map (\<lambda>k. map (cell_index e0 k) [int c0..int c1 - 1]) [int k0..int k1 - 1])"
    using pos c(5,6) kk(5,6) by (simp add: cells_of_def fit)
  then have "set (cells_of e0 e1 r) =
      (\<Union>k' \<in> {int k0..int k1 - 1}. cell_index e0 k' ` {int c0..int c1 - 1})"
    by simp
  also have "\<dots> = (\<Union>k' \<in> {k0..<k1}. (\<lambda>l'. cell_index e0 (int k') (int l')) ` {c0..<c1})"
    unfolding set_upto_nat by (simp add: image_image)
  also have "\<dots> = (\<Union>k' \<in> {k0..<k1}. (\<lambda>l'. ?W * k' + l') ` {c0..<c1})"
    by (simp only: cell_index_nat [OF len0])
  finally have cells:
    "set (cells_of e0 e1 r) = (\<Union>k' \<in> {k0..<k1}. (\<lambda>l'. ?W * k' + l') ` {c0..<c1})" .
  have idx: "?W * k + l \<in> set (cells_of e0 e1 r) \<longleftrightarrow> (k0 \<le> k \<and> k < k1) \<and> (c0 \<le> l \<and> l < c1)"
  proof
    assume "?W * k + l \<in> set (cells_of e0 e1 r)"
    then obtain k' l' where m: "k' \<in> {k0..<k1}" "l' \<in> {c0..<c1}" "?W * k + l = ?W * k' + l'"
      unfolding cells by blast
    from m(2) c(2) have "l' < ?W" by auto
    from grid_index_unique [OF l this m(3)] m(1,2)
    show "(k0 \<le> k \<and> k < k1) \<and> (c0 \<le> l \<and> l < c1)" by simp
  next
    assume "(k0 \<le> k \<and> k < k1) \<and> (c0 \<le> l \<and> l < c1)"
    then have "k \<in> {k0..<k1}" "l \<in> {c0..<c1}" by simp_all
    then show "?W * k + l \<in> set (cells_of e0 e1 r)"
      unfolding cells by blast
  qed
  have i1: "k0 \<le> k \<longleftrightarrow> ry r \<le> e1 ! k"
    using sorted_nth_le_iff [OF s1, of k0 k] kk k by simp
  have i2: "k < k1 \<longleftrightarrow> e1 ! (k + 1) \<le> ry r + rh r"
    using sorted_nth_le_iff [OF s1, of "k + 1" k1] kk k by auto
  have i3: "c0 \<le> l \<longleftrightarrow> rx r \<le> e0 ! l"
    using sorted_nth_le_iff [OF s0, of c0 l] c l by simp
  have i4: "l < c1 \<longleftrightarrow> e0 ! (l + 1) \<le> rx r + rw r"
    using sorted_nth_le_iff [OF s0, of "l + 1" c1] c l by auto
  show ?thesis
    unfolding idx i1 i2 i3 i4 cell_in_def using True by blast
qed

lemma mk_grid_cell:
  assumes s0: "sorted_wrt (<) e0" and s1: "sorted_wrt (<) e1"
    and ed: "\<forall>r \<in> set add \<union> set rm. nondegenerate r \<longrightarrow> has_edges e0 e1 r"
    and k: "k < length e1 - 1" and l: "l < length e0 - 1"
  shows "mk_grid e0 e1 add rm ! ((length e0 - 1) * k + l) = 2 \<longleftrightarrow>
     (\<exists>a \<in> set add. nondegenerate a \<and> cell_in e0 e1 a k l) \<and>
     \<not> (\<exists>b \<in> set rm. nondegenerate b \<and> cell_in e0 e1 b k l)"
proof -
  let ?W = "length e0 - 1" and ?H = "length e1 - 1"
  have "?W * k + l < ?W * ?H"
  proof -
    from k have "k + 1 \<le> ?H" by simp
    then have "?W * (k + 1) \<le> ?W * ?H" by (rule mult_le_mono2)
    with l show ?thesis by simp
  qed
  moreover have "nat ((int (length e0) - 1) * (int (length e1) - 1)) = ?W * ?H"
  proof -
    from k l have pos: "0 < length e0" "0 < length e1" by auto
    have a: "int (length e0) - 1 = int ?W" using pos(1) by (rule int_pred)
    have b: "int (length e1) - 1 = int ?H" using pos(2) by (rule int_pred)
    have "(int (length e0) - 1) * (int (length e1) - 1) = int (?W * ?H)"
      by (simp only: a b of_nat_mult)
    then show ?thesis by (simp only: nat_int)
  qed
  ultimately have m: "?W * k + l < nat ((int (length e0) - 1) * (int (length e1) - 1))"
    by simp
  have mem: "?W * k + l \<in> set (cells_of e0 e1 r) \<longleftrightarrow> nondegenerate r \<and> cell_in e0 e1 r k l"
    if "r \<in> set add \<union> set rm" for r
    using cells_of_mem [OF s0 s1 _ k l, of r] ed that by blast
  have cc: "x \<in> set (concat (map (cells_of e0 e1) rs)) \<longleftrightarrow>
      (\<exists>r \<in> set rs. x \<in> set (cells_of e0 e1 r))" for x rs
    by auto
  have A: "?W * k + l \<in> set (concat (map (cells_of e0 e1) add)) \<longleftrightarrow>
      (\<exists>a \<in> set add. nondegenerate a \<and> cell_in e0 e1 a k l)"
    unfolding cc using mem by blast
  have B: "?W * k + l \<in> set (concat (map (cells_of e0 e1) rm)) \<longleftrightarrow>
      (\<exists>b \<in> set rm. nondegenerate b \<and> cell_in e0 e1 b k l)"
    unfolding cc using mem by blast
  show ?thesis
    unfolding mk_grid_nth [OF m] A B ..
qed

section \<open>Pixels and cells\<close>

lemma locate:
  fixes e :: "int list"
  shows "a < b \<Longrightarrow> e ! a \<le> x \<Longrightarrow> x < e ! b \<Longrightarrow>
    \<exists>l. a \<le> l \<and> l < b \<and> e ! l \<le> x \<and> x < e ! (l + 1)"
proof (induction b)
  case 0
  then show ?case by simp
next
  case (Suc b)
  show ?case
  proof (cases "x < e ! b")
    case True
    show ?thesis
    proof (cases "a < b")
      case True
      from Suc.IH [OF True Suc.prems(2) \<open>x < e ! b\<close>] show ?thesis
        by (auto simp: less_Suc_eq)
    next
      case False
      with Suc.prems(1) have "a = b" by simp
      with Suc.prems(2) True show ?thesis by simp
    qed
  next
    case False
    with Suc.prems show ?thesis
      by (intro exI [of _ b]) simp
  qed
qed

lemma index_of_edge:
  fixes e :: "int list"
  assumes "x \<in> set e"
  shows "\<exists>c < length e. e ! c = x"
  using assms by (auto simp: in_set_conv_nth)

lemma covers_cell_in:
  assumes s0: "sorted_wrt (<) e0" and s1: "sorted_wrt (<) e1"
    and he: "has_edges e0 e1 r"
    and k: "k < length e1 - 1" and l: "l < length e0 - 1"
    and ic: "in_cell e0 e1 k l p"
  shows "covers r p \<longleftrightarrow> cell_in e0 e1 r k l"
proof
  assume "cell_in e0 e1 r k l"
  with ic show "covers r p"
    by (auto simp: cell_in_def in_cell_def covers_def)
next
  assume cv: "covers r p"
  have lo: "x \<le> e ! m" if "sorted_wrt (<) e" "x \<in> set e" "x < e ! (m + 1)" "m + 1 < length e"
    for e :: "int list" and x m
  proof -
    from index_of_edge [OF that(2)] obtain c where c: "c < length e" "e ! c = x" by blast
    with that(3) have "e ! c < e ! (m + 1)" by simp
    with sorted_nth_less_iff [OF that(1) c(1) that(4)] have "c \<le> m" by simp
    from sorted_nth_le [OF that(1) this] that(4) c(2) show ?thesis by simp
  qed
  have hi: "e ! (m + 1) \<le> x" if "sorted_wrt (<) e" "x \<in> set e" "e ! m < x" "m + 1 < length e"
    for e :: "int list" and x m
  proof -
    from index_of_edge [OF that(2)] obtain c where c: "c < length e" "e ! c = x" by blast
    with that(3) have "e ! m < e ! c" by simp
    with sorted_nth_less_iff [OF that(1) _ c(1), of m] that(4) have "m + 1 \<le> c" by simp
    from sorted_nth_le [OF that(1) this c(1)] c(2) show ?thesis by simp
  qed
  from he have e: "rx r \<in> set e0" "rx r + rw r \<in> set e0" "ry r \<in> set e1"
    "ry r + rh r \<in> set e1"
    by (simp_all add: has_edges_def)
  from k l have kl: "k + 1 < length e1" "l + 1 < length e0" by auto
  from cv ic have "rx r < e0 ! (l + 1)" "e0 ! l < rx r + rw r" "ry r < e1 ! (k + 1)"
    "e1 ! k < ry r + rh r"
    by (auto simp: covers_def in_cell_def)
  with lo [OF s0 e(1) _ kl(2)] hi [OF s0 e(2) _ kl(2)] lo [OF s1 e(3) _ kl(1)]
    hi [OF s1 e(4) _ kl(1)]
  show "cell_in e0 e1 r k l"
    by (simp add: cell_in_def)
qed

lemma covers_in_some_cell:
  assumes s0: "sorted_wrt (<) e0" and s1: "sorted_wrt (<) e1"
    and he: "has_edges e0 e1 r" and cv: "covers r p"
  shows "\<exists>k l. k < length e1 - 1 \<and> l < length e0 - 1 \<and> in_cell e0 e1 k l p"
proof -
  have ex: "\<exists>m. m < length e - 1 \<and> e ! m \<le> x \<and> x < e ! (m + 1)"
    if "sorted_wrt (<) e" "u \<in> set e" "v \<in> set e" "u \<le> x" "x < v" for e :: "int list" and u v x
  proof -
    from index_of_edge [OF that(2)] obtain a where a: "a < length e" "e ! a = u" by blast
    from index_of_edge [OF that(3)] obtain b where b: "b < length e" "e ! b = v" by blast
    from that(4,5) a b have "e ! a < e ! b" by simp
    with sorted_nth_less_iff [OF that(1) a(1) b(1)] have ab: "a < b" by simp
    from locate [OF ab, of e x] a b that(4,5) obtain m where
      "a \<le> m" "m < b" "e ! m \<le> x" "x < e ! (m + 1)" by auto
    with b(1) show ?thesis by (intro exI [of _ m]) auto
  qed
  from he have e: "rx r \<in> set e0" "rx r + rw r \<in> set e0" "ry r \<in> set e1"
    "ry r + rh r \<in> set e1"
    by (simp_all add: has_edges_def)
  from cv have c: "rx r \<le> fst p" "fst p < rx r + rw r" "ry r \<le> snd p" "snd p < ry r + rh r"
    by (simp_all add: covers_def)
  from ex [OF s0 e(1,2) c(1,2)] obtain l where "l < length e0 - 1" "e0 ! l \<le> fst p"
    "fst p < e0 ! (l + 1)" by blast
  moreover from ex [OF s1 e(3,4) c(3,4)] obtain k where "k < length e1 - 1" "e1 ! k \<le> snd p"
    "snd p < e1 ! (k + 1)" by blast
  ultimately show ?thesis
    unfolding in_cell_def by blast
qed

section \<open>The region of the output\<close>

lemma covers_run_rect:
  "covers (run_rect e0 e1 k ab) p \<longleftrightarrow>
     e0 ! fst ab \<le> fst p \<and> fst p < e0 ! snd ab \<and> e1 ! k \<le> snd p \<and> snd p < e1 ! (k + 1)"
  by (auto simp: covers_def run_rect_def Rect_def)

lemma true_cell_in_run:
  assumes "l < length cs" and "cs ! l"
  shows "\<exists>a b. is_run cs a b \<and> a \<le> l \<and> l < b"
proof -
  define a where "a = (LEAST a. \<forall>j \<in> {a..l}. cs ! j)"
  define b where "b = (LEAST b. l < b \<and> (b = length cs \<or> \<not> cs ! b))"
  have pa: "\<forall>j \<in> {l..l}. cs ! j" using assms(2) by simp
  have a1: "\<forall>j \<in> {a..l}. cs ! j"
    unfolding a_def by (rule LeastI [of "\<lambda>a. \<forall>j \<in> {a..l}. cs ! j", OF pa])
  have al: "a \<le> l"
    unfolding a_def by (rule Least_le [of "\<lambda>a. \<forall>j \<in> {a..l}. cs ! j", OF pa])
  have a2: "a = 0 \<or> \<not> cs ! (a - 1)"
  proof (rule ccontr)
    assume "\<not> (a = 0 \<or> \<not> cs ! (a - 1))"
    then have a0: "0 < a" "cs ! (a - 1)" by auto
    have "\<forall>j \<in> {a - 1..l}. cs ! j"
    proof
      fix j assume "j \<in> {a - 1..l}"
      then have "j = a - 1 \<or> j \<in> {a..l}" by auto
      with a0 a1 show "cs ! j" by auto
    qed
    then have "a \<le> a - 1"
      unfolding a_def by (rule Least_le [of "\<lambda>a. \<forall>j \<in> {a..l}. cs ! j"])
    with a0 show False by simp
  qed
  have pb: "l < length cs \<and> (length cs = length cs \<or> \<not> cs ! length cs)"
    using assms(1) by simp
  have b1: "l < b \<and> (b = length cs \<or> \<not> cs ! b)"
    unfolding b_def
    by (rule LeastI [of "\<lambda>b. l < b \<and> (b = length cs \<or> \<not> cs ! b)", OF pb])
  have bl: "b \<le> length cs"
    unfolding b_def
    by (rule Least_le [of "\<lambda>b. l < b \<and> (b = length cs \<or> \<not> cs ! b)", OF pb])
  have b2: "cs ! j" if "l < j" "j < b" for j
  proof (rule ccontr)
    assume "\<not> cs ! j"
    with that(1) have "l < j \<and> (j = length cs \<or> \<not> cs ! j)" by simp
    then have "b \<le> j"
      unfolding b_def by (rule Least_le [of "\<lambda>b. l < b \<and> (b = length cs \<or> \<not> cs ! b)"])
    with that(2) show False by simp
  qed
  have "\<forall>j \<in> {a..<b}. cs ! j"
  proof
    fix j assume j: "j \<in> {a..<b}"
    show "cs ! j"
    proof (cases "j \<le> l")
      case True
      with j a1 show ?thesis by simp
    next
      case False
      with j b2 show ?thesis by simp
    qed
  qed
  with al b1 bl a2 have "is_run cs a b"
    unfolding is_run_def by auto
  with al b1 show ?thesis by blast
qed

lemma set_emit_rows:
  "set (emit_rows e0 e1 grid) =
     {run_rect e0 e1 k (a, b) | k a b. k < length e1 - 1 \<and> is_run (row_cells e0 grid k) a b}"
  by (fastforce simp: emit_rows_def set_runs_of)

lemma is_run_bounds: "is_run cs a b \<Longrightarrow> a < b \<and> b \<le> length cs"
  by (simp add: is_run_def)

lemma is_run_all: "is_run cs a b \<Longrightarrow> a \<le> j \<Longrightarrow> j < b \<Longrightarrow> cs ! j"
  by (simp add: is_run_def)

lemma emit_rows_covers:
  assumes s0: "sorted_wrt (<) e0"
  shows "(\<exists>q \<in> set (emit_rows e0 e1 grid). covers q p) \<longleftrightarrow>
     (\<exists>k l. k < length e1 - 1 \<and> l < length e0 - 1 \<and>
        grid ! ((length e0 - 1) * k + l) = 2 \<and> in_cell e0 e1 k l p)"
proof
  assume "\<exists>q \<in> set (emit_rows e0 e1 grid). covers q p"
  then obtain k a b where k: "k < length e1 - 1" and r: "is_run (row_cells e0 grid k) a b"
    and c: "covers (run_rect e0 e1 k (a, b)) p"
    unfolding set_emit_rows by blast
  from is_run_bounds [OF r] have ab: "a < b" "b \<le> length e0 - 1"
    by (simp_all add: row_cells_nth)
  from c have cc: "e0 ! a \<le> fst p" "fst p < e0 ! b" "e1 ! k \<le> snd p" "snd p < e1 ! (k + 1)"
    by (simp_all add: covers_run_rect)
  from locate [OF ab(1) cc(1,2)] obtain l where
    l: "a \<le> l" "l < b" "e0 ! l \<le> fst p" "fst p < e0 ! (l + 1)" by blast
  from l(2) ab(2) have lW: "l < length e0 - 1" by simp
  from is_run_all [OF r l(1,2)] lW have "grid ! ((length e0 - 1) * k + l) = 2"
    by (simp add: row_cells_nth)
  with k lW l cc show "\<exists>k l. k < length e1 - 1 \<and> l < length e0 - 1 \<and>
        grid ! ((length e0 - 1) * k + l) = 2 \<and> in_cell e0 e1 k l p"
    unfolding in_cell_def by blast
next
  assume "\<exists>k l. k < length e1 - 1 \<and> l < length e0 - 1 \<and>
        grid ! ((length e0 - 1) * k + l) = 2 \<and> in_cell e0 e1 k l p"
  then obtain k l where k: "k < length e1 - 1" and l: "l < length e0 - 1"
    and g: "grid ! ((length e0 - 1) * k + l) = 2" and ic: "in_cell e0 e1 k l p"
    by blast
  from l g have "l < length (row_cells e0 grid k)" "row_cells e0 grid k ! l"
    by (simp_all add: row_cells_nth)
  from true_cell_in_run [OF this] obtain a b where
    r: "is_run (row_cells e0 grid k) a b" and ab: "a \<le> l" "l < b" by blast
  from is_run_bounds [OF r] have b: "b < length e0" by (simp add: row_cells_nth) arith
  from sorted_nth_le [OF s0 ab(1)] l have "e0 ! a \<le> e0 ! l" by simp
  moreover from sorted_nth_le [OF s0 _ b, of "l + 1"] ab(2) have "e0 ! (l + 1) \<le> e0 ! b" by simp
  ultimately have "covers (run_rect e0 e1 k (a, b)) p"
    using ic by (simp add: covers_run_rect in_cell_def)
  with k r show "\<exists>q \<in> set (emit_rows e0 e1 grid). covers q p"
    unfolding set_emit_rows by blast
qed

lemma grid_ok_edges:
  assumes c: "\<forall>r \<in> set add \<union> set rm. c_rect r"
  shows "grid_ok (quicksort (fst (get_edges add rm))) (quicksort (snd (get_edges add rm))) add rm"
proof -
  have "has_edges (quicksort (fst (get_edges add rm))) (quicksort (snd (get_edges add rm))) r"
    if r: "r \<in> set add \<union> set rm" for r
  proof -
    from c r have f: "c_add (rx r) (rw r) = rx r + rw r" "c_add (ry r) (rh r) = ry r + rh r"
      by (simp_all add: c_rect_sums)
    have "rx r \<in> set (fst (get_edges add rm))" "c_add (rx r) (rw r) \<in> set (fst (get_edges add rm))"
      "ry r \<in> set (snd (get_edges add rm))" "c_add (ry r) (rh r) \<in> set (snd (get_edges add rm))"
      unfolding get_edges_sets using r by blast+
    with f show ?thesis by (simp add: has_edges_def set_quicksort)
  qed
  then show ?thesis
    unfolding grid_ok_def by (simp add: sorted_quicksort get_edges_distinct)
qed

lemma fits_c_rect: "fits (add @ rm) \<Longrightarrow> \<forall>r \<in> set add \<union> set rm. c_rect r"
  by (simp add: fits_def)

lemma grid_covers:
  assumes ok: "grid_ok e0 e1 add rm"
  shows "(\<exists>q \<in> set (emit_rows e0 e1 (mk_grid e0 e1 add rm)). covers q p) \<longleftrightarrow>
     (\<exists>a \<in> set add. nondegenerate a \<and> covers a p) \<and>
     \<not> (\<exists>b \<in> set rm. nondegenerate b \<and> covers b p)"
proof -
  from ok have s0: "sorted_wrt (<) e0" and s1: "sorted_wrt (<) e1"
    and he: "\<And>r. r \<in> set add \<union> set rm \<Longrightarrow> has_edges e0 e1 r"
    by (simp_all add: grid_ok_def)
  have ed: "\<forall>r \<in> set add \<union> set rm. nondegenerate r \<longrightarrow> has_edges e0 e1 r"
    using he by blast
  let ?A = "\<exists>a \<in> set add. nondegenerate a \<and> covers a p"
  let ?B = "\<exists>b \<in> set rm. nondegenerate b \<and> covers b p"
  have cell: "mk_grid e0 e1 add rm ! ((length e0 - 1) * k + l) = 2 \<longleftrightarrow> ?A \<and> \<not> ?B"
    if k: "k < length e1 - 1" and l: "l < length e0 - 1" and ic: "in_cell e0 e1 k l p" for k l
  proof -
    have cv: "covers r p \<longleftrightarrow> cell_in e0 e1 r k l" if "r \<in> set add \<union> set rm" for r
      using covers_cell_in [OF s0 s1 he [OF that] k l ic] .
    have "(\<exists>a \<in> set add. nondegenerate a \<and> cell_in e0 e1 a k l) \<longleftrightarrow> ?A"
      using cv by blast
    moreover have "(\<exists>b \<in> set rm. nondegenerate b \<and> cell_in e0 e1 b k l) \<longleftrightarrow> ?B"
      using cv by blast
    ultimately show ?thesis
      unfolding mk_grid_cell [OF s0 s1 ed k l] by simp
  qed
  have "(\<exists>k l. k < length e1 - 1 \<and> l < length e0 - 1 \<and>
        mk_grid e0 e1 add rm ! ((length e0 - 1) * k + l) = 2 \<and> in_cell e0 e1 k l p) \<longleftrightarrow>
      ?A \<and> \<not> ?B"
  proof
    assume "\<exists>k l. k < length e1 - 1 \<and> l < length e0 - 1 \<and>
        mk_grid e0 e1 add rm ! ((length e0 - 1) * k + l) = 2 \<and> in_cell e0 e1 k l p"
    then obtain k l where "k < length e1 - 1" "l < length e0 - 1" "in_cell e0 e1 k l p"
      "mk_grid e0 e1 add rm ! ((length e0 - 1) * k + l) = 2" by blast
    with cell show "?A \<and> \<not> ?B" by blast
  next
    assume ab: "?A \<and> \<not> ?B"
    then obtain a where a: "a \<in> set add" "covers a p" by blast
    from covers_in_some_cell [OF s0 s1 he a(2)] a(1) obtain k l where
      kl: "k < length e1 - 1" "l < length e0 - 1" "in_cell e0 e1 k l p" by auto
    with cell [OF kl] ab
    show "\<exists>k l. k < length e1 - 1 \<and> l < length e0 - 1 \<and>
        mk_grid e0 e1 add rm ! ((length e0 - 1) * k + l) = 2 \<and> in_cell e0 e1 k l p"
      by blast
  qed
  then show ?thesis
    unfolding emit_rows_covers [OF s0] .
qed

lemma mk_disjoint_covers:
  assumes "fits (add @ rm)"
  shows "(\<exists>q \<in> set (mk_disjoint add rm). covers q p) \<longleftrightarrow>
     (\<exists>a \<in> set add. nondegenerate a \<and> covers a p) \<and>
     \<not> (\<exists>b \<in> set rm. nondegenerate b \<and> covers b p)"
  unfolding mk_disjoint_emit_rows [OF assms]
  by (rule grid_covers [OF grid_ok_edges [OF fits_c_rect [OF assms]]])

section \<open>The output is non-degenerate, ordered and disjoint\<close>

lemma is_run_end_unique:
  assumes "is_run cs a b" and "is_run cs a b'"
  shows "b = b'"
proof (rule ccontr)
  assume ne: "b \<noteq> b'"
  have *: False if r: "is_run cs a x" "is_run cs a y" and lt: "x < y" for x y
  proof -
    from r lt have "x < length cs" by (auto simp: is_run_def)
    with r(1) have "\<not> cs ! x" by (auto simp: is_run_def)
    moreover from r lt have "x \<in> {a..<y}" by (auto simp: is_run_def)
    with r(2) have "cs ! x" unfolding is_run_def by blast
    ultimately show False by simp
  qed
  from ne consider "b < b'" | "b' < b" by (cases b b' rule: linorder_cases) auto
  then show False using * assms by cases blast+
qed

lemma runs_apart:
  assumes "is_run cs a b" and "is_run cs a' b'" and "a < a'"
  shows "b \<le> a'"
proof (rule ccontr)
  assume "\<not> b \<le> a'"
  with assms(3) have "a' - 1 \<in> {a..<b}" "a' \<noteq> 0" by auto
  with assms(1) have "cs ! (a' - 1)" unfolding is_run_def by blast
  moreover from assms(2) \<open>a' \<noteq> 0\<close> have "\<not> cs ! (a' - 1)" by (simp add: is_run_def)
  ultimately show False by simp
qed

lemma run_rect_simps [simp]:
  "rx (run_rect e0 e1 k ab) = e0 ! fst ab"
  "ry (run_rect e0 e1 k ab) = e1 ! k"
  "rw (run_rect e0 e1 k ab) = e0 ! snd ab - e0 ! fst ab"
  "rh (run_rect e0 e1 k ab) = e1 ! (k + 1) - e1 ! k"
  by (simp_all add: run_rect_def Rect_def)

text \<open>What the members of the output are, with sorted edges.\<close>

lemma emit_rows_member:
  assumes "q \<in> set (emit_rows e0 e1 grid)"
  obtains k a b where "k < length e1 - 1" and "is_run (row_cells e0 grid k) a b"
    and "a < b" and "b < length e0" and "q = run_rect e0 e1 k (a, b)"
proof -
  from assms obtain k a b where k: "k < length e1 - 1" and r: "is_run (row_cells e0 grid k) a b"
    and q: "q = run_rect e0 e1 k (a, b)"
    unfolding set_emit_rows by blast
  from is_run_bounds [OF r] have "a < b" "b \<le> length e0 - 1" by (simp_all add: row_cells_nth)
  then have "a < b" "b < length e0" by auto
  with k r q that show ?thesis by blast
qed

lemma emit_rows_nondegenerate:
  assumes s0: "sorted_wrt (<) e0" and s1: "sorted_wrt (<) e1"
    and q: "q \<in> set (emit_rows e0 e1 grid)"
  shows "nondegenerate q"
proof -
  from q obtain k a b where k: "k < length e1 - 1" and ab: "a < b" "b < length e0"
    and eq: "q = run_rect e0 e1 k (a, b)"
    by (rule emit_rows_member)
  from sorted_nth_less [OF s0 ab] have "e0 ! a < e0 ! b" .
  moreover from sorted_nth_less [OF s1, of k "k + 1"] k have "e1 ! k < e1 ! (k + 1)" by simp
  ultimately show ?thesis by (simp add: nondegenerate_def eq)
qed

lemma sorted_wrt_concat_upt:
  assumes "\<And>k. k < n \<Longrightarrow> sorted_wrt P (f k)"
    and "\<And>k k' x y. k < k' \<Longrightarrow> k' < n \<Longrightarrow> x \<in> set (f k) \<Longrightarrow> y \<in> set (f k') \<Longrightarrow> P x y"
  shows "sorted_wrt P (concat (map f [0..<n]))"
  using assms
proof (induction n)
  case 0
  then show ?case by simp
next
  case (Suc n)
  have "sorted_wrt P (concat (map f [0..<n]))"
    using Suc.prems by (intro Suc.IH) auto
  moreover have "sorted_wrt P (f n)" using Suc.prems(1) by simp
  moreover have "\<forall>x \<in> set (concat (map f [0..<n])). \<forall>y \<in> set (f n). P x y"
    using Suc.prems(2) by auto
  ultimately show ?case by (simp add: sorted_wrt_append)
qed

lemma row_sorted:
  assumes s0: "sorted_wrt (<) e0" and len: "length cs = length e0 - 1"
  shows "sorted_wrt (\<lambda>r s. rect_key r < rect_key s) (map (run_rect e0 e1 k) (runs_of cs))"
proof -
  have step: "e0 ! fst p < e0 ! fst q"
    if "p \<in> set (runs_of cs)" "q \<in> set (runs_of cs)" "p < q" for p q
  proof -
    from that(1,2) have r: "is_run cs (fst p) (snd p)" "is_run cs (fst q) (snd q)"
      by (auto simp: set_runs_of)
    have "fst p \<noteq> fst q"
    proof
      assume e: "fst p = fst q"
      with r is_run_end_unique [of cs "fst p" "snd p" "snd q"] have "snd p = snd q" by simp
      with e have "p = q" by (simp add: prod_eq_iff)
      with that(3) show False by simp
    qed
    with that(3) have lt: "fst p < fst q" by (auto simp: less_prod_def)
    from is_run_bounds [OF r(2)] len have "fst q < length e0" by auto
    from sorted_nth_less [OF s0 lt this] show ?thesis .
  qed
  have "sorted_wrt (\<lambda>p q. e0 ! fst p < e0 ! fst q) (runs_of cs)"
    by (rule sorted_wrt_mono_rel [where P = "(<)", OF _ sorted_runs_of]) (rule step)
  then show ?thesis
    by (simp add: sorted_wrt_map rect_key_def)
qed

lemma emit_rows_sorted:
  assumes s0: "sorted_wrt (<) e0" and s1: "sorted_wrt (<) e1"
  shows "sorted_wrt (\<lambda>r s. rect_key r < rect_key s) (emit_rows e0 e1 grid)"
  unfolding emit_rows_def
proof (rule sorted_wrt_concat_upt)
  fix k assume "k < length e1 - 1"
  show "sorted_wrt (\<lambda>r s. rect_key r < rect_key s)
      (map (run_rect e0 e1 k) (runs_of (row_cells e0 grid k)))"
    by (rule row_sorted [OF s0]) (simp add: row_cells_nth)
next
  fix k k' x y
  assume kk: "k < k'" "k' < length e1 - 1"
    and x: "x \<in> set (map (run_rect e0 e1 k) (runs_of (row_cells e0 grid k)))"
    and y: "y \<in> set (map (run_rect e0 e1 k') (runs_of (row_cells e0 grid k')))"
  from x y have "ry x = e1 ! k" "ry y = e1 ! k'" by auto
  moreover from sorted_nth_less [OF s1 kk(1)] kk(2) have "e1 ! k < e1 ! k'" by simp
  ultimately show "rect_key x < rect_key y" by (simp add: rect_key_def)
qed

lemma pairwise_disjoint_sorted_wrt:
  "pairwise_disjoint xs \<longleftrightarrow> sorted_wrt (\<lambda>r s. \<not> overlap r s) xs"
  by (induction xs) auto

lemma emit_rows_apart:
  assumes s0: "sorted_wrt (<) e0" and s1: "sorted_wrt (<) e1"
    and x: "x \<in> set (emit_rows e0 e1 grid)" and y: "y \<in> set (emit_rows e0 e1 grid)"
    and lt: "rect_key x < rect_key y"
  shows "\<not> overlap x y"
proof -
  from x obtain k a b where k: "k < length e1 - 1" and r: "is_run (row_cells e0 grid k) a b"
    and ab: "a < b" "b < length e0" and xe: "x = run_rect e0 e1 k (a, b)"
    by (rule emit_rows_member)
  from y obtain k' a' b' where k': "k' < length e1 - 1"
    and r': "is_run (row_cells e0 grid k') a' b'"
    and ab': "a' < b'" "b' < length e0" and ye: "y = run_rect e0 e1 k' (a', b')"
    by (rule emit_rows_member)
  from k k' have kl: "k < length e1" "k' < length e1" "k + 1 < length e1" by auto
  from lt have "e1 ! k < e1 ! k' \<or> e1 ! k = e1 ! k' \<and> e0 ! a < e0 ! a'"
    by (auto simp: rect_key_def xe ye less_prod_def)
  then consider "e1 ! k < e1 ! k'" | "e1 ! k = e1 ! k'" "e0 ! a < e0 ! a'"
    by blast
  then show ?thesis
  proof cases
    case 1
    with sorted_nth_less_iff [OF s1 kl(1,2)] have "k + 1 \<le> k'" by simp
    from sorted_nth_le [OF s1 this kl(2)] show ?thesis
      by (simp add: overlap_def xe ye)
  next
    case 2
    from 2(1) s1 kl have "k = k'"
      by (simp add: strict_sorted_iff nth_eq_iff_index_eq)
    from ab ab' have al: "a < length e0" "a' < length e0" by auto
    with 2(2) sorted_nth_less_iff [OF s0 al] have "a < a'" by simp
    from runs_apart [OF r r' [folded \<open>k = k'\<close>] this] have "b \<le> a'" .
    from sorted_nth_le [OF s0 this al(2)] show ?thesis
      by (simp add: overlap_def xe ye)
  qed
qed

lemma emit_rows_disjoint:
  assumes s0: "sorted_wrt (<) e0" and s1: "sorted_wrt (<) e1"
  shows "pairwise_disjoint (emit_rows e0 e1 grid)"
  unfolding pairwise_disjoint_sorted_wrt
  by (rule sorted_wrt_mono_rel [where P = "\<lambda>r s. rect_key r < rect_key s",
        OF _ emit_rows_sorted [OF s0 s1]])
    (rule emit_rows_apart [OF s0 s1])

lemma overlap_covers: "overlap a b \<longleftrightarrow> (\<exists>p. covers a p \<and> covers b p)"
proof
  assume "overlap a b"
  then have "covers a (max (rx a) (rx b), max (ry a) (ry b)) \<and>
      covers b (max (rx a) (rx b), max (ry a) (ry b))"
    by (auto simp: overlap_def covers_def)
  then show "\<exists>p. covers a p \<and> covers b p" ..
next
  assume "\<exists>p. covers a p \<and> covers b p"
  then show "overlap a b"
    by (auto simp: overlap_def covers_def)
qed

text \<open>
  Claim C1, as stated, fails.  Two rectangles side by side, each \<open>2000000000\<close> wide, are
  covered by one run that is \<open>4000000000\<close> wide.  The code's difference of the edges of
  the run is \<open>- 294967296\<close>: the one rectangle of the output is degenerate and covers no
  pixel of the two.
\<close>

theorem wide_union_counterexample:
  "c_rect (Rect (- 2000000000) 0 2000000000 1) \<and> c_rect (Rect 0 0 2000000000 1) \<and>
   mk_disjoint [Rect (- 2000000000) 0 2000000000 1, Rect 0 0 2000000000 1] [] =
     [Rect (- 2000000000) 0 (- 294967296) 1] \<and>
   \<not> nondegenerate (Rect (- 2000000000) 0 (- 294967296) 1) \<and>
   nondegenerate (Rect 0 0 2000000000 1) \<and>
   covers (Rect 0 0 2000000000 1) (0, 0) \<and>
   \<not> covers (Rect (- 2000000000) 0 (- 294967296) 1) (0, 0)"
  by code_simp

text \<open>
  Claim C1, amended.  For a list \<open>A\<close> that fits (its rectangles have fields and edges in
  the range of \<open>int\<close>, and it is less than \<open>2^31\<close> wide and high), with an empty list \<open>rm\<close>,
  every rectangle of the output is non-degenerate, no two of them overlap, and a pixel
  lies in a rectangle of the output exactly when it lies in a non-degenerate rectangle
  of \<open>A\<close>.
\<close>

theorem mk_disjoint_no_rm:
  assumes "fits A"
  shows "(\<forall>q \<in> set (mk_disjoint A []). nondegenerate q) \<and>
   pairwise_disjoint (mk_disjoint A []) \<and>
   (\<forall>p. (\<exists>q \<in> set (mk_disjoint A []). covers q p) \<longleftrightarrow>
        (\<exists>a \<in> set A. nondegenerate a \<and> covers a p))"
proof -
  let ?e0 = "quicksort (fst (get_edges A []))" and ?e1 = "quicksort (snd (get_edges A []))"
  from assms have f: "fits (A @ [])" by simp
  have ok: "grid_ok ?e0 ?e1 A []" by (rule grid_ok_edges [OF fits_c_rect [OF f]])
  then have s: "sorted_wrt (<) ?e0" "sorted_wrt (<) ?e1" by (simp_all add: grid_ok_def)
  have "\<forall>q \<in> set (mk_disjoint A []). nondegenerate q"
    unfolding mk_disjoint_emit_rows [OF f] using emit_rows_nondegenerate [OF s] by blast
  moreover have "pairwise_disjoint (mk_disjoint A [])"
    unfolding mk_disjoint_emit_rows [OF f] by (rule emit_rows_disjoint [OF s])
  moreover have "(\<exists>q \<in> set (mk_disjoint A []). covers q p) \<longleftrightarrow>
        (\<exists>a \<in> set A. nondegenerate a \<and> covers a p)" for p
    by (simp add: mk_disjoint_covers [OF f])
  ultimately show ?thesis by blast
qed

theorem mk_disjoint_no_rm_witness:
  "fits [Rect 0 0 4 4, Rect 2 2 4 4, Rect 9 9 0 5] \<and>
   mk_disjoint [Rect 0 0 4 4, Rect 2 2 4 4, Rect 9 9 0 5] [] =
     [Rect 0 0 4 2, Rect 0 2 6 2, Rect 2 4 4 2] \<and>
   nondegenerate (Rect 0 0 4 2) \<and> nondegenerate (Rect 0 2 6 2) \<and>
   nondegenerate (Rect 2 4 4 2) \<and>
   pairwise_disjoint [Rect 0 0 4 2, Rect 0 2 6 2, Rect 2 4 4 2] \<and>
   covers (Rect 2 2 4 4) (5, 3) \<and> covers (Rect 0 2 6 2) (5, 3)"
proof -
  have f: "fits [Rect 0 0 4 4, Rect 2 2 4 4, Rect 9 9 0 5]"
    by code_simp
  have ev: "mk_disjoint [Rect 0 0 4 4, Rect 2 2 4 4, Rect 9 9 0 5] [] =
     [Rect 0 0 4 2, Rect 0 2 6 2, Rect 2 4 4 2]"
    by code_simp
  have cv: "covers (Rect 2 2 4 4) (5, 3)" "covers (Rect 0 2 6 2) (5, 3)"
    by (simp_all add: covers_def Rect_def)
  show ?thesis
    using mk_disjoint_no_rm [OF f] cv f
    unfolding ev by simp
qed

section \<open>mk\_disjoint on its own output\<close>

text \<open>
  For lists that fit, a rectangle is in the output exactly if it is a row of the y-edges
  and a maximal span of the region.  The output has the y-edges of its rows and covers
  the region, so a second run finds the same rows and the same spans, in the same order.
\<close>

lemma cell_region:
  assumes ok: "grid_ok e0 e1 add rm"
    and k: "k < length e1 - 1" and l: "l < length e0 - 1" and ic: "in_cell e0 e1 k l p"
  shows "mk_grid e0 e1 add rm ! ((length e0 - 1) * k + l) = 2 \<longleftrightarrow> region add rm p"
proof -
  from ok have s0: "sorted_wrt (<) e0" and s1: "sorted_wrt (<) e1"
    and he: "\<And>r. r \<in> set add \<union> set rm \<Longrightarrow> has_edges e0 e1 r"
    by (simp_all add: grid_ok_def)
  have ed: "\<forall>r \<in> set add \<union> set rm. nondegenerate r \<longrightarrow> has_edges e0 e1 r"
    using he by blast
  have cv: "covers r p \<longleftrightarrow> cell_in e0 e1 r k l" if "r \<in> set add \<union> set rm" for r
    using covers_cell_in [OF s0 s1 he [OF that] k l ic] .
  have "(\<exists>a \<in> set add. nondegenerate a \<and> cell_in e0 e1 a k l) \<longleftrightarrow>
      (\<exists>a \<in> set add. nondegenerate a \<and> covers a p)"
    using cv by blast
  moreover have "(\<exists>b \<in> set rm. nondegenerate b \<and> cell_in e0 e1 b k l) \<longleftrightarrow>
      (\<exists>b \<in> set rm. nondegenerate b \<and> covers b p)"
    using cv by blast
  ultimately show ?thesis
    unfolding mk_grid_cell [OF s0 s1 ed k l] region_def by simp
qed

lemma region_left_out:
  assumes ok: "grid_ok e0 e1 add rm" and n: "0 < length e0" and x: "x < e0 ! 0"
  shows "\<not> region add rm (x, y)"
proof
  assume "region add rm (x, y)"
  then obtain a where a: "a \<in> set add" "covers a (x, y)" by (auto simp add: region_def)
  from ok a(1) have "rx a \<in> set e0" by (simp add: grid_ok_def has_edges_def)
  then obtain c where c: "c < length e0" "e0 ! c = rx a" by (auto simp add: in_set_conv_nth)
  from ok have "sorted_wrt (<) e0" by (simp add: grid_ok_def)
  from sorted_nth_le [OF this _ c(1), of 0] c(2) have "e0 ! 0 \<le> rx a" by simp
  with a(2) x show False by (simp add: covers_def)
qed

lemma region_right_out:
  assumes ok: "grid_ok e0 e1 add rm" and n: "0 < length e0" and x: "e0 ! (length e0 - 1) \<le> x"
  shows "\<not> region add rm (x, y)"
proof
  assume "region add rm (x, y)"
  then obtain a where a: "a \<in> set add" "covers a (x, y)" by (auto simp add: region_def)
  from ok a(1) have "rx a + rw a \<in> set e0" by (simp add: grid_ok_def has_edges_def)
  then obtain c where c: "c < length e0" "e0 ! c = rx a + rw a"
    by (auto simp add: in_set_conv_nth)
  from ok have "sorted_wrt (<) e0" by (simp add: grid_ok_def)
  from sorted_nth_le [OF this, of c "length e0 - 1"] c n
  have "rx a + rw a \<le> e0 ! (length e0 - 1)" by simp
  with a(2) x show False by (simp add: covers_def)
qed

lemma emit_rows_row_span:
  assumes ok: "grid_ok e0 e1 add rm"
    and q: "q \<in> set (emit_rows e0 e1 (mk_grid e0 e1 add rm))"
  shows "row_of (set e1) q \<and> span_of (region add rm) q"
proof -
  let ?g = "mk_grid e0 e1 add rm"
  from ok have s0: "sorted_wrt (<) e0" and s1: "sorted_wrt (<) e1"
    by (simp_all add: grid_ok_def)
  from q obtain k a b where k: "k < length e1 - 1"
    and run: "is_run (row_cells e0 ?g k) a b"
    and ab: "a < b" and b: "b < length e0" and qe: "q = run_rect e0 e1 k (a, b)"
    by (rule emit_rows_member)
  let ?cs = "row_cells e0 ?g k"
  have len: "length ?cs = length e0 - 1" by (simp add: row_cells_def)
  have cs: "?cs ! l \<longleftrightarrow> region add rm p"
    if "l < length e0 - 1" "in_cell e0 e1 k l p" for l p
    using cell_region [OF ok k that] that(1) by (simp add: row_cells_def)
  have y: "e1 ! k < e1 ! (k + 1)"
    using sorted_nth_less [OF s1, of k "k + 1"] k by simp
  have x: "e0 ! a < e0 ! b"
    using sorted_nth_less [OF s0 ab b] .
  have row: "row_of (set e1) q"
  proof -
    have "y \<le> e1 ! k \<or> e1 ! (k + 1) \<le> y" if "y \<in> set e1" for y
    proof -
      from that obtain m where m: "m < length e1" "e1 ! m = y"
        by (auto simp add: in_set_conv_nth)
      show ?thesis
      proof (cases "m \<le> k")
        case True
        with sorted_nth_le [OF s1, of m k] k m show ?thesis by simp
      next
        case False
        then have "k + 1 \<le> m" by simp
        from sorted_nth_le [OF s1 this m(1)] m(2) show ?thesis by simp
      qed
    qed
    moreover have "e1 ! k \<in> set e1" "e1 ! (k + 1) \<in> set e1" using k by simp_all
    ultimately show ?thesis by (simp add: row_of_def qe)
  qed
  have inside: "region add rm (x', e1 ! k)" if "e0 ! a \<le> x'" "x' < e0 ! b" for x'
  proof -
    from locate [OF ab that] obtain l where l: "a \<le> l" "l < b" "e0 ! l \<le> x'" "x' < e0 ! (l + 1)"
      by blast
    have "?cs ! l" using is_run_all [OF run l(1,2)] .
    moreover have "in_cell e0 e1 k l (x', e1 ! k)" using l y by (simp add: in_cell_def)
    ultimately show ?thesis using cs [of l] l b by simp
  qed
  have left: "\<not> region add rm (e0 ! a - 1, e1 ! k)"
  proof (cases "a = 0")
    case True
    from b have "0 < length e0" by auto
    from region_left_out [OF ok this, of "e0 ! 0 - 1"] True show ?thesis by simp
  next
    case False
    with run have "\<not> ?cs ! (a - 1)" by (simp add: is_run_def)
    moreover have "in_cell e0 e1 k (a - 1) (e0 ! a - 1, e1 ! k)"
      using sorted_nth_less [OF s0, of "a - 1" a] False ab b y by (simp add: in_cell_def)
    ultimately show ?thesis using cs [of "a - 1"] ab b by simp
  qed
  have right: "\<not> region add rm (e0 ! b, e1 ! k)"
  proof (cases "b = length e0 - 1")
    case True
    from b have "0 < length e0" by auto
    from region_right_out [OF ok this, of "e0 ! b"] True show ?thesis by simp
  next
    case False
    with run len have "\<not> ?cs ! b" by (simp add: is_run_def)
    moreover have "in_cell e0 e1 k b (e0 ! b, e1 ! k)"
      using sorted_nth_less [OF s0, of b "b + 1"] False b y by (simp add: in_cell_def)
    ultimately show ?thesis using cs [of b] False b by simp
  qed
  from inside left right x y have "span_of (region add rm) q"
    by (simp add: span_of_def qe)
  with row show ?thesis ..
qed

lemma row_span_emit_rows:
  assumes ok: "grid_ok e0 e1 add rm"
    and row: "row_of (set e1) q" and span: "span_of (region add rm) q"
  shows "q \<in> set (emit_rows e0 e1 (mk_grid e0 e1 add rm))"
proof -
  let ?g = "mk_grid e0 e1 add rm"
  from ok have s0: "sorted_wrt (<) e0" and s1: "sorted_wrt (<) e1"
    and he: "\<And>r. r \<in> set add \<Longrightarrow> has_edges e0 e1 r"
    by (simp_all add: grid_ok_def)
  from span have w: "0 < rw q" and h: "0 < rh q"
    and ins: "\<And>x. rx q \<le> x \<Longrightarrow> x < rx q + rw q \<Longrightarrow> region add rm (x, ry q)"
    and lo: "\<not> region add rm (rx q - 1, ry q)"
    and hi: "\<not> region add rm (rx q + rw q, ry q)"
    by (simp_all add: span_of_def)
  from row obtain k where k: "k < length e1" "e1 ! k = ry q"
    by (auto simp add: row_of_def in_set_conv_nth)
  from row obtain m where m: "m < length e1" "e1 ! m = ry q + rh q"
    by (auto simp add: row_of_def in_set_conv_nth)
  have km: "k < m"
    using sorted_nth_less_iff [OF s1 k(1) m(1)] k m h by simp
  have "m = k + 1"
  proof (rule ccontr)
    assume "m \<noteq> k + 1"
    with km have lt: "k + 1 < m" by simp
    have "e1 ! k < e1 ! (k + 1)" using sorted_nth_less [OF s1, of k "k + 1"] lt m by simp
    moreover have "e1 ! (k + 1) < e1 ! m" using sorted_nth_less [OF s1 lt m(1)] .
    moreover have "e1 ! (k + 1) \<in> set e1" using lt m by simp
    ultimately show False using row k m by (auto simp add: row_of_def)
  qed
  with m have k1: "k < length e1 - 1" "e1 ! (k + 1) = ry q + rh q" by auto
  let ?cs = "row_cells e0 ?g k"
  have len: "length ?cs = length e0 - 1" by (simp add: row_cells_def)
  have cs: "?cs ! l \<longleftrightarrow> region add rm p"
    if "l < length e0 - 1" "in_cell e0 e1 k l p" for l p
    using cell_region [OF ok k1(1) that] that(1) by (simp add: row_cells_def)
  have cell: "\<exists>l < length e0 - 1. in_cell e0 e1 k l (x, ry q)" if "region add rm (x, ry q)" for x
  proof -
    from that obtain a where a: "a \<in> set add" "covers a (x, ry q)"
      by (auto simp add: region_def)
    from covers_in_some_cell [OF s0 s1 he [OF a(1)] a(2)] obtain k' l where
      kl: "k' < length e1 - 1" "l < length e0 - 1" "in_cell e0 e1 k' l (x, ry q)" by blast
    have "k' = k"
    proof -
      from kl(3) k have "e1 ! k' \<le> e1 ! k" "e1 ! k < e1 ! (k' + 1)"
        by (simp_all add: in_cell_def)
      moreover from kl(1) have "k' < length e1" "k' + 1 < length e1" by simp_all
      ultimately have "k' \<le> k" "k < k' + 1"
        using sorted_nth_le_iff [OF s1, of k' k] sorted_nth_less_iff [OF s1, of k "k' + 1"] k(1)
        by blast+
      then show ?thesis by simp
    qed
    with kl show ?thesis by blast
  qed
  have s_left: "region add rm (rx q, ry q)" using ins [of "rx q"] w by simp
  from cell [OF this] obtain a where a: "a < length e0 - 1" "in_cell e0 e1 k a (rx q, ry q)"
    by blast
  have xa: "e0 ! a = rx q"
  proof (rule ccontr)
    assume "e0 ! a \<noteq> rx q"
    with a(2) have "in_cell e0 e1 k a (rx q - 1, ry q)" by (simp add: in_cell_def)
    with cs [OF a(1) this] cs [OF a] s_left lo show False by simp
  qed
  have s_right: "region add rm (rx q + rw q - 1, ry q)" using ins [of "rx q + rw q - 1"] w by simp
  from cell [OF this] obtain b' where
    b': "b' < length e0 - 1" "in_cell e0 e1 k b' (rx q + rw q - 1, ry q)" by blast
  have xb: "e0 ! (b' + 1) = rx q + rw q"
  proof (rule ccontr)
    assume "e0 ! (b' + 1) \<noteq> rx q + rw q"
    with b'(2) have "in_cell e0 e1 k b' (rx q + rw q, ry q)" by (simp add: in_cell_def)
    with cs [OF b'(1) this] cs [OF b'] s_right hi show False by simp
  qed
  define b where "b = b' + 1"
  have b: "b < length e0" "e0 ! b = rx q + rw q" "0 < b"
    using b'(1) xb by (simp_all add: b_def)
  have ab: "a < b"
    using sorted_nth_less_iff [OF s0, of a b] a(1) b xa w by simp
  have inner: "?cs ! j" if "a \<le> j" "j < b" for j
  proof -
    have "in_cell e0 e1 k j (e0 ! j, ry q)"
      using sorted_nth_less [OF s0, of j "j + 1"] that b k k1 h by (simp add: in_cell_def)
    moreover have "rx q \<le> e0 ! j"
      using sorted_nth_le [OF s0 that(1)] that(2) b(1) xa by simp
    moreover have "e0 ! j < rx q + rw q"
      using sorted_nth_less [OF s0 that(2) b(1)] b(2) by simp
    ultimately show ?thesis using cs [of j] ins that b by simp
  qed
  have before: "a = 0 \<or> \<not> ?cs ! (a - 1)"
  proof (cases "a = 0")
    case False
    have "in_cell e0 e1 k (a - 1) (rx q - 1, ry q)"
      using sorted_nth_less [OF s0, of "a - 1" a] False a xa k k1 h by (simp add: in_cell_def)
    with cs [of "a - 1"] lo a False show ?thesis by simp
  qed simp
  have after: "b = length ?cs \<or> \<not> ?cs ! b"
  proof (cases "b = length e0 - 1")
    case False
    have "in_cell e0 e1 k b (rx q + rw q, ry q)"
      using sorted_nth_less [OF s0, of b "b + 1"] False b k k1 h by (simp add: in_cell_def)
    with cs [of b] hi b False show ?thesis by simp
  qed (simp add: len)
  have run: "is_run ?cs a b"
    using ab b(1) len inner before after by (auto simp add: is_run_def)
  have "q = run_rect e0 e1 k (a, b)"
    using xa b(2) k(2) k1(2) by (simp add: run_rect_def Rect_def)
  with run k1(1) show ?thesis unfolding set_emit_rows by blast
qed

lemma mk_disjoint_member:
  assumes f: "fits (add @ rm)"
  shows "q \<in> set (mk_disjoint add rm) \<longleftrightarrow>
     row_of (set (snd (get_edges add rm))) q \<and> span_of (region add rm) q"
proof -
  note ok = grid_ok_edges [OF fits_c_rect [OF f]]
  show ?thesis
    unfolding mk_disjoint_emit_rows [OF f]
    using emit_rows_row_span [OF ok, of q] row_span_emit_rows [OF ok, of q]
    by (auto simp add: set_quicksort)
qed

lemma mk_disjoint_sorted:
  assumes f: "fits (add @ rm)"
  shows "sorted_wrt (\<lambda>r s. rect_key r < rect_key s) (mk_disjoint add rm)"
  unfolding mk_disjoint_emit_rows [OF f]
  using grid_ok_edges [OF fits_c_rect [OF f]] by (simp add: grid_ok_def emit_rows_sorted)

text \<open>The output of a list that fits is a list that fits: its edges are edges of the input.\<close>

lemma edges_int_ok:
  assumes "\<forall>r \<in> set rs. c_rect r"
  shows "u \<in> set (x_edges rs) \<Longrightarrow> int_ok u" and "v \<in> set (y_edges rs) \<Longrightarrow> int_ok v"
  using assms by (auto simp add: x_edges_def y_edges_def c_rect_def)

lemma fits_mk_disjoint:
  assumes f: "fits (A @ B)"
  shows "fits (mk_disjoint A B)"
proof -
  let ?e0 = "quicksort (fst (get_edges A B))" and ?e1 = "quicksort (snd (get_edges A B))"
  let ?O = "mk_disjoint A B"
  note c = fits_c_rect [OF f]
  from c have c': "\<forall>r \<in> set (A @ B). c_rect r" by simp
  have E: "set ?e0 = set (x_edges (A @ B))" "set ?e1 = set (y_edges (A @ B))"
    by (simp_all add: set_quicksort get_edges_c_rect [OF c])
  note d = fits_edges [OF f]
  have mem: "rx q \<in> set ?e0 \<and> rx q + rw q \<in> set ?e0 \<and> ry q \<in> set ?e1 \<and> ry q + rh q \<in> set ?e1"
    if "q \<in> set ?O" for q
  proof -
    from that have "q \<in> set (emit_rows ?e0 ?e1 (mk_grid ?e0 ?e1 A B))"
      by (simp add: mk_disjoint_emit_rows [OF f])
    then obtain k a b where "k < length ?e1 - 1" "a < b" "b < length ?e0"
      "q = run_rect ?e0 ?e1 k (a, b)"
      by (rule emit_rows_member)
    then show ?thesis by simp
  qed
  have "c_rect q" if q: "q \<in> set ?O" for q
  proof -
    note m = mem [OF q]
    from m have i: "int_ok (rx q)" "int_ok (rx q + rw q)" "int_ok (ry q)" "int_ok (ry q + rh q)"
      unfolding E using edges_int_ok [OF c'] by blast+
    from m d(1) have "int_ok (rx q + rw q - rx q)" unfolding diffs_ok_def by blast
    moreover from m d(2) have "int_ok (ry q + rh q - ry q)" unfolding diffs_ok_def by blast
    ultimately show ?thesis using i by (simp add: c_rect_def)
  qed
  moreover have "set (x_edges ?O) \<subseteq> set ?e0" "set (y_edges ?O) \<subseteq> set ?e1"
    using mem by (auto simp add: x_edges_def y_edges_def)
  with d have "diffs_ok (x_edges ?O)" "diffs_ok (y_edges ?O)"
    unfolding diffs_ok_def by blast+
  ultimately show ?thesis by (simp add: fits_def)
qed

lemma sorted_key_unique:
  fixes f :: "'a \<Rightarrow> 'b::linorder"
  assumes x: "sorted_wrt (\<lambda>r s. f r < f s) xs" and y: "sorted_wrt (\<lambda>r s. f r < f s) ys"
    and e: "set xs = set ys"
  shows "xs = ys"
proof -
  have sx: "sorted_wrt (<) (map f xs)" and sy: "sorted_wrt (<) (map f ys)"
    using x y by (simp_all add: sorted_wrt_map)
  have m: "map f xs = map f ys"
  proof (rule strict_sorted_equal)
    show "set (map f xs) = set (map f ys)" using e by simp
  qed (rule sy, rule sx)
  from sx have "distinct (map f xs)" by (simp add: strict_sorted_iff)
  then have "inj_on f (set xs)" by (simp add: distinct_map)
  with e have "inj_on f (set xs \<union> set ys)" by simp
  from inj_on_map_eq_map [OF this] m show ?thesis by simp
qed

text \<open>
  Claim C5, as stated, fails.  For two rectangles side by side, each \<open>2000000000\<close> wide,
  the output is one rectangle of width \<open>- 294967296\<close>, and the output for that list alone
  is the empty list.
\<close>

theorem wide_output_counterexample:
  "c_rect (Rect (- 2000000000) 0 2000000000 1) \<and> c_rect (Rect 0 0 2000000000 1) \<and>
   mk_disjoint [Rect (- 2000000000) 0 2000000000 1, Rect 0 0 2000000000 1] [] =
     [Rect (- 2000000000) 0 (- 294967296) 1] \<and>
   mk_disjoint (mk_disjoint [Rect (- 2000000000) 0 2000000000 1, Rect 0 0 2000000000 1] []) [] = []"
  by code_simp

text \<open>
  Claim C5, amended.  For lists \<open>A\<close> and \<open>B\<close> that together fit (the rectangles have fields
  and edges in the range of \<open>int\<close>, and the two lists together are less than \<open>2^31\<close> wide
  and high), \<open>mk_disjoint\<close> with an empty \<open>rm\<close> list on the output of \<open>mk_disjoint A B\<close>
  returns that same list.
\<close>

theorem mk_disjoint_idempotent:
  assumes f: "fits (A @ B)"
  shows "mk_disjoint (mk_disjoint A B) [] = mk_disjoint A B"
proof -
  let ?O = "mk_disjoint A B"
  let ?E = "set (snd (get_edges A B))" and ?F = "set (snd (get_edges ?O []))"
  from fits_mk_disjoint [OF f] have fO: "fits (?O @ [])" by simp
  have reg: "region ?O [] p \<longleftrightarrow> region A B p" for p
  proof -
    have "(\<exists>q \<in> set ?O. nondegenerate q \<and> covers q p) \<longleftrightarrow> (\<exists>q \<in> set ?O. covers q p)"
      using mk_disjoint_member [OF f] by (auto simp add: span_of_def nondegenerate_def)
    then show ?thesis
      unfolding region_def mk_disjoint_covers [OF f, of p] by simp
  qed
  then have reg': "region ?O [] = region A B" by (simp add: fun_eq_iff)
  have F: "?F = (\<Union>r \<in> set ?O. {ry r, ry r + rh r})"
    using get_edges_c_rect(2) [OF fits_c_rect [OF fO]] by (simp add: y_edges_def)
  have O_row: "row_of ?E q" if "q \<in> set ?O" for q
    using that mk_disjoint_member [OF f, of q] by simp
  have sub: "?F \<subseteq> ?E"
    unfolding F using O_row by (auto simp add: row_of_def)
  have rows: "row_of ?F q \<longleftrightarrow> row_of ?E q" if sp: "span_of (region A B) q" for q
  proof
    assume "row_of ?E q"
    with sp have "q \<in> set ?O" by (simp add: mk_disjoint_member [OF f])
    then have "ry q \<in> ?F" "ry q + rh q \<in> ?F" unfolding F by auto
    with \<open>row_of ?E q\<close> sub show "row_of ?F q" by (auto simp add: row_of_def)
  next
    assume rf: "row_of ?F q"
    from sp have "region A B (rx q, ry q)" by (simp add: span_of_def)
    then have "\<exists>q0 \<in> set ?O. covers q0 (rx q, ry q)"
      unfolding mk_disjoint_covers [OF f] region_def .
    then obtain q0 where q0: "q0 \<in> set ?O" "covers q0 (rx q, ry q)" by blast
    from q0(1) have r0: "row_of ?E q0" by (rule O_row)
    from q0(1) have f0: "ry q0 \<in> ?F" "ry q0 + rh q0 \<in> ?F" unfolding F by auto
    from q0(2) have c: "ry q0 \<le> ry q" "ry q < ry q0 + rh q0" by (simp_all add: covers_def)
    from sp have h: "0 < rh q" by (simp add: span_of_def)
    from rf sub have e: "ry q \<in> ?E" "ry q + rh q \<in> ?E" by (auto simp add: row_of_def)
    from r0 e(1) c have y: "ry q = ry q0" by (auto simp add: row_of_def)
    from rf f0(2) c have "ry q + rh q \<le> ry q0 + rh q0" by (auto simp add: row_of_def)
    moreover from r0 e(2) y h have "ry q0 + rh q0 \<le> ry q + rh q" by (auto simp add: row_of_def)
    ultimately have "rh q = rh q0" using y by simp
    with r0 y show "row_of ?E q" by (simp add: row_of_def)
  qed
  have "set (mk_disjoint ?O []) = set ?O"
    using rows by (auto simp add: mk_disjoint_member [OF fO] mk_disjoint_member [OF f] reg')
  with mk_disjoint_sorted [OF fO] mk_disjoint_sorted [OF f] show ?thesis
    by (rule sorted_key_unique)
qed

theorem mk_disjoint_idempotent_witness:
  "fits ([Rect 0 0 4 2, Rect 2 1 4 2] @ [Rect 1 0 1 1]) \<and>
   mk_disjoint [Rect 0 0 4 2, Rect 2 1 4 2] [Rect 1 0 1 1] =
     [Rect 0 0 1 1, Rect 2 0 2 1, Rect 0 1 6 1, Rect 2 2 4 1] \<and>
   mk_disjoint [Rect 0 0 1 1, Rect 2 0 2 1, Rect 0 1 6 1, Rect 2 2 4 1] [] =
     [Rect 0 0 1 1, Rect 2 0 2 1, Rect 0 1 6 1, Rect 2 2 4 1]"
proof -
  have f: "fits ([Rect 0 0 4 2, Rect 2 1 4 2] @ [Rect 1 0 1 1])"
    by code_simp
  have a: "mk_disjoint [Rect 0 0 4 2, Rect 2 1 4 2] [Rect 1 0 1 1] =
     [Rect 0 0 1 1, Rect 2 0 2 1, Rect 0 1 6 1, Rect 2 2 4 1]"
    by code_simp
  from mk_disjoint_idempotent [OF f] a f
  show ?thesis by simp
qed

section \<open>The second pass\<close>

text \<open>The results of the second pass do not depend on the calls recorded before.\<close>

lemma opaque_chain_calls:
  "opaque_chain hk gs r c =
     (case opaque_chain hk gs r [] of (res, v, evs) \<Rightarrow> (res, v, c @ evs))"
proof (induction gs arbitrary: r c)
  case Nil
  then show ?case by simp
next
  case (Cons g gs)
  let ?r = "clip r (postrot_rect g)"
  show ?case
  proof (cases "opaque_in hk g ?r")
    case (Inl e)
    then show ?thesis by (simp add: Let_def)
  next
    case (Inr t)
    show ?thesis
    proof (cases "rw ?r > 0 \<and> rh ?r > 0 \<and> t")
      case True
      obtain res v evs where o: "opaque_chain hk gs ?r [] = (res, v, evs)"
        by (cases "opaque_chain hk gs ?r []") auto
      from Cons.IH [of ?r "c @ [OpaqueIn g ?r]"] Cons.IH [of ?r "[OpaqueIn g ?r]"] o
      show ?thesis using Inr True by (simp add: Let_def)
    next
      case False
      with Inr show ?thesis by (auto simp: Let_def)
    qed
  qed
qed

lemma opaque_chain_result:
  "opaque_chain hk gs r c = (res, v, c') \<Longrightarrow> chain_result hk gs r = (res, v)"
  by (subst (asm) opaque_chain_calls) (auto simp: chain_result_def split: prod.splits)

lemma layer_opaque_calls:
  "layer_opaque hk gs ds c =
     (case layer_opaque hk gs ds [] of (res, l, evs) \<Rightarrow> (res, l, c @ evs))"
proof (induction ds arbitrary: c)
  case Nil
  then show ?case by simp
next
  case (Cons r ds)
  obtain r1 v evs where o: "opaque_chain hk gs r [] = (r1, v, evs)"
    by (cases "opaque_chain hk gs r []") auto
  then have oc: "opaque_chain hk gs r c = (r1, v, c @ evs)"
    by (subst opaque_chain_calls) simp
  show ?case
  proof (cases r1)
    case (Some e)
    with o oc show ?thesis by simp
  next
    case None
    obtain r2 l evs2 where lo: "layer_opaque hk gs ds [] = (r2, l, evs2)"
      by (cases "layer_opaque hk gs ds []") auto
    from Cons.IH [of "c @ evs"] Cons.IH [of evs] lo o oc None
    show ?thesis by (simp split: prod.splits)
  qed
qed

lemma layer_opaque_list:
  "layer_opaque hk gs ds c = (res, l, c') \<Longrightarrow> l = opaque_of hk gs ds"
  by (subst (asm) layer_opaque_calls) (auto simp: opaque_of_def split: prod.splits)

lemma opaque_of_empty_layer: "opaque_of hk [] ds = ds"
proof -
  have "layer_opaque hk [] ds c = (None, ds, c)" for c
    by (induction ds arbitrary: c) simp_all
  then show ?thesis by (simp add: opaque_of_def)
qed

lemma layer_opaque_empty_layer: "layer_opaque hk [] ds c = (None, ds, c)"
  by (induction ds arbitrary: c) simp_all

lemma layer_opaque_member:
  assumes "layer_opaque hk gs ds c = (None, l, c')" and "r \<in> set ds"
    and "chain_result hk gs r = (None, True, r')"
  shows "r' \<in> set l"
  using assms(1,2)
proof (induction ds arbitrary: c l c')
  case Nil
  then show ?case by simp
next
  case (Cons d ds)
  obtain r1 v c1 where oc: "opaque_chain hk gs d c = (r1, v, c1)"
    by (cases "opaque_chain hk gs d c") auto
  with Cons.prems(1) have r1: "r1 = None" by (cases r1) auto
  obtain r2 l2 c2 where lo: "layer_opaque hk gs ds c1 = (r2, l2, c2)"
    by (cases "layer_opaque hk gs ds c1") auto
  with Cons.prems(1) oc r1 have eq: "r2 = None" "l = (if fst v then snd v # l2 else l2)"
    by (auto split: prod.splits)
  show ?case
  proof (cases "r = d")
    case True
    with opaque_chain_result [OF oc] assms(3) have "v = (True, r')" by simp
    with eq show ?thesis by simp
  next
    case False
    with Cons.prems(2) have "r \<in> set ds" by simp
    from Cons.IH [OF _ this, of c1 l2 c2] lo eq have "r' \<in> set l2" by simp
    with eq show ?thesis by simp
  qed
qed

lemma cull_nth:
  "cull hk graphics dirty dop c = (None, dbl, c') \<Longrightarrow> j < length graphics \<Longrightarrow>
   dbl ! j = mk_disjoint dirty (dop @ concat (map (\<lambda>gs. opaque_of hk gs dirty) (take j graphics)))"
proof (induction graphics arbitrary: dop c dbl c' j)
  case Nil
  then show ?case by simp
next
  case (Cons gs graphics)
  obtain r1 l c1 where lo: "layer_opaque hk gs dirty c = (r1, l, c1)"
    by (cases "layer_opaque hk gs dirty c") auto
  with Cons.prems(1) have r1: "r1 = None" by (cases r1) auto
  from layer_opaque_list [OF lo] have l: "l = opaque_of hk gs dirty" .
  obtain r2 dbl2 c2 where cu: "cull hk graphics dirty (dop @ l) c1 = (r2, dbl2, c2)"
    by (cases "cull hk graphics dirty (dop @ l) c1") auto
  with Cons.prems(1) lo r1 have eq: "r2 = None" "dbl = mk_disjoint dirty dop # dbl2"
    by auto
  show ?case
  proof (cases j)
    case 0
    with eq show ?thesis by simp
  next
    case (Suc j')
    with Cons.prems(2) have "j' < length graphics" by simp
    from Cons.IH [OF _ this, of "dop @ l" c1 dbl2 c2] cu eq
    show ?thesis by (simp add: Suc l)
  qed
qed

text \<open>
  When every rectangle of \<open>add\<close> is in \<open>rm\<close>, every cell that is marked \<open>add\<close> is marked
  \<open>rm\<close>: no cell equals 2 and no row has a run.
\<close>

lemma grid_index_bound:
  assumes k: "k < length e1 - 1" and l: "l < length e0 - 1"
  shows "(length e0 - 1) * k + l < nat ((int (length e0) - 1) * (int (length e1) - 1))"
proof -
  let ?W = "length e0 - 1" and ?H = "length e1 - 1"
  have "?W * k + l < ?W * ?H"
  proof -
    from k have "k + 1 \<le> ?H" by simp
    then have "?W * (k + 1) \<le> ?W * ?H" by (rule mult_le_mono2)
    with l show ?thesis by simp
  qed
  moreover have "nat ((int (length e0) - 1) * (int (length e1) - 1)) = ?W * ?H"
  proof -
    from k l have pos: "0 < length e0" "0 < length e1" by auto
    have a: "int (length e0) - 1 = int ?W" using pos(1) by (rule int_pred)
    have b: "int (length e1) - 1 = int ?H" using pos(2) by (rule int_pred)
    have "(int (length e0) - 1) * (int (length e1) - 1) = int (?W * ?H)"
      by (simp only: a b of_nat_mult)
    then show ?thesis by (simp only: nat_int)
  qed
  ultimately show ?thesis by simp
qed

lemma runs_of_none:
  assumes "\<forall>j < length cs. \<not> cs ! j"
  shows "runs_of cs = []"
proof -
  have "\<not> is_run cs a b" for a b
  proof
    assume r: "is_run cs a b"
    then have "a < b" "b \<le> length cs" by (simp_all add: is_run_def)
    moreover from r this have "cs ! a" by (simp add: is_run_def)
    ultimately show False using assms by simp
  qed
  then have "set (runs_of cs) = {}" by (simp add: set_runs_of)
  then show ?thesis by simp
qed

lemma mk_disjoint_subset_empty:
  assumes "set add \<subseteq> set rm"
  shows "mk_disjoint add rm = []"
proof -
  let ?e0 = "quicksort (fst (get_edges add rm))" and ?e1 = "quicksort (snd (get_edges add rm))"
  let ?g = "mk_grid ?e0 ?e1 add rm"
  have none: "runs_of (row_cells ?e0 ?g i) = []" if i: "i < length ?e1 - 1" for i
  proof (rule runs_of_none, intro allI impI)
    fix j assume "j < length (row_cells ?e0 ?g i)"
    then have j: "j < length ?e0 - 1" by (simp add: row_cells_def)
    from mk_grid_nth [OF grid_index_bound [OF i j], of add rm] assms
    have "?g ! ((length ?e0 - 1) * i + j) \<noteq> 2" by auto
    with j show "\<not> row_cells ?e0 ?g i ! j" by (simp add: row_cells_def)
  qed
  have "map (\<lambda>i. map (c_run_rect ?e0 ?e1 i) (runs_of (row_cells ?e0 ?g i))) [0..<length ?e1 - 1] =
      map (\<lambda>i. []) [0..<length ?e1 - 1]"
    by (intro map_cong refl) (simp add: none)
  then show ?thesis
    unfolding mk_disjoint_c_emit_rows c_emit_rows_def by simp
qed

text \<open>
  For rectangles with edges in the range of \<open>int\<close> the edges of the grid are the edges of
  the rectangles, and a difference of two of them comes out of the code as it is or
  negative: a rectangle of the output is a run of the grid or degenerate.
\<close>

lemma wrap_high:
  assumes "2 ^ 31 \<le> d" and "d < 2 ^ 32"
  shows "wrap d = d - 2 ^ 32"
proof -
  let ?x = "d + 2 ^ 31"
  have "?x mod 2 ^ 32 = (?x - 2 ^ 32) mod 2 ^ 32" by (rule minus_mod_self2 [symmetric])
  also have "\<dots> = ?x - 2 ^ 32" using assms by (intro mod_pos_pos_trivial) simp_all
  finally show ?thesis unfolding wrap_def by simp
qed

lemma c_sub_cases:
  assumes "int_ok u" and "int_ok v" and "v < u"
  shows "c_sub u v = u - v \<or> c_sub u v < 0"
proof (cases "u - v < 2 ^ 31")
  case True
  with assms(3) have "int_ok (u - v)" by (simp add: int_ok_def)
  then show ?thesis by (simp add: c_sub_id)
next
  case False
  from assms(1,2) have "u - v < 2 ^ 32" by (simp add: int_ok_def)
  with False wrap_high [of "u - v"] have "c_sub u v = u - v - 2 ^ 32" by (simp add: c_sub_def)
  with \<open>u - v < 2 ^ 32\<close> show ?thesis by simp
qed

lemma set_c_emit_rows:
  "set (c_emit_rows e0 e1 grid) =
     {c_run_rect e0 e1 k (a, b) | k a b. k < length e1 - 1 \<and> is_run (row_cells e0 grid k) a b}"
  by (fastforce simp: c_emit_rows_def set_runs_of)

lemma overlap_nondegenerate: "overlap a b \<Longrightarrow> nondegenerate a"
  by (auto simp add: overlap_def nondegenerate_def)

lemma mk_disjoint_run_or_degenerate:
  assumes c: "\<forall>r \<in> set add \<union> set rm. c_rect r" and q: "q \<in> set (mk_disjoint add rm)"
  shows "q \<in> set (emit_rows (quicksort (fst (get_edges add rm))) (quicksort (snd (get_edges add rm)))
           (mk_grid (quicksort (fst (get_edges add rm))) (quicksort (snd (get_edges add rm))) add rm)) \<or>
         \<not> nondegenerate q"
proof -
  let ?e0 = "quicksort (fst (get_edges add rm))" and ?e1 = "quicksort (snd (get_edges add rm))"
  let ?g = "mk_grid ?e0 ?e1 add rm"
  from grid_ok_edges [OF c] have s: "sorted_wrt (<) ?e0" "sorted_wrt (<) ?e1"
    by (simp_all add: grid_ok_def)
  from c have c': "\<forall>r \<in> set (add @ rm). c_rect r" by simp
  have E: "set ?e0 = set (x_edges (add @ rm))" "set ?e1 = set (y_edges (add @ rm))"
    by (simp_all add: set_quicksort get_edges_c_rect [OF c])
  from q obtain k a b where k: "k < length ?e1 - 1" and run: "is_run (row_cells ?e0 ?g k) a b"
    and qe: "q = c_run_rect ?e0 ?e1 k (a, b)"
    unfolding mk_disjoint_c_emit_rows set_c_emit_rows by blast
  from run have ab: "a < b" "b < length ?e0"
    by (auto simp add: is_run_def row_cells_def)
  then have "?e0 ! a \<in> set ?e0" "?e0 ! b \<in> set ?e0" by simp_all
  then have ix: "int_ok (?e0 ! a)" "int_ok (?e0 ! b)"
    unfolding E using edges_int_ok(1) [OF c'] by blast+
  from k have "?e1 ! k \<in> set ?e1" "?e1 ! (k + 1) \<in> set ?e1" by simp_all
  then have iy: "int_ok (?e1 ! k)" "int_ok (?e1 ! (k + 1))"
    unfolding E using edges_int_ok(2) [OF c'] by blast+
  from sorted_nth_less [OF s(1) ab] have lx: "?e0 ! a < ?e0 ! b" .
  from sorted_nth_less [OF s(2), of k "k + 1"] k have ly: "?e1 ! k < ?e1 ! (k + 1)" by simp
  from c_sub_cases [OF ix(2,1) lx] c_sub_cases [OF iy(2,1) ly]
  consider "c_sub (?e0 ! b) (?e0 ! a) = ?e0 ! b - ?e0 ! a"
      "c_sub (?e1 ! (k + 1)) (?e1 ! k) = ?e1 ! (k + 1) - ?e1 ! k"
    | "c_sub (?e0 ! b) (?e0 ! a) < 0" | "c_sub (?e1 ! (k + 1)) (?e1 ! k) < 0"
    by blast
  then show ?thesis
  proof cases
    case 1
    then have "q = run_rect ?e0 ?e1 k (a, b)"
      by (simp add: qe c_run_rect_def run_rect_def)
    with k run show ?thesis unfolding set_emit_rows by blast
  next
    case 2
    then show ?thesis by (simp add: qe c_run_rect_def Rect_def nondegenerate_def)
  next
    case 3
    then show ?thesis by (simp add: qe c_run_rect_def Rect_def nondegenerate_def)
  qed
qed

text \<open>Clipping a rectangle of \<open>int\<close> values gives one: the result lies within the first.\<close>

lemma clip_side:
  assumes "int_ok ax" and "int_ok aw" and "int_ok (ax + aw)"
    and "clip_lo ax aw bx bw = Some x" and "clip_len ax aw bx bw x = Some w"
  shows "int_ok x \<and> int_ok w \<and> int_ok (x + w)"
  using assms
  by (auto simp add: clip_lo_def clip_len_def int_ok_def split: if_splits)

lemma clip_c_rect:
  assumes "c_rect a"
  shows "c_rect (clip a b)"
proof -
  from assms have a: "int_ok (rx a)" "int_ok (rw a)" "int_ok (rx a + rw a)"
    "int_ok (ry a)" "int_ok (rh a)" "int_ok (ry a + rh a)"
    by (simp_all add: c_rect_def)
  have z: "c_rect (Rect (rx a) (ry a) 0 0)"
    using a by (simp add: c_rect_def Rect_def int_ok_def)
  show ?thesis
  proof (cases "clip_lo (rx a) (rw a) (rx b) (rw b)")
    case None
    with z show ?thesis by (simp add: clip_def)
  next
    case x: (Some x)
    show ?thesis
    proof (cases "clip_len (rx a) (rw a) (rx b) (rw b) x")
      case None
      with x z show ?thesis by (simp add: clip_def)
    next
      case w: (Some w)
      show ?thesis
      proof (cases "clip_lo (ry a) (rh a) (ry b) (rh b)")
        case None
        with x w z show ?thesis by (simp add: clip_def)
      next
        case y: (Some y)
        show ?thesis
        proof (cases "clip_len (ry a) (rh a) (ry b) (rh b) y")
          case None
          with x w y z show ?thesis by (simp add: clip_def)
        next
          case h: (Some h)
          from clip_side [OF a(1,2,3) x w] clip_side [OF a(4,5,6) y h]
          have "c_rect (Rect x y w h)" by (simp add: c_rect_def Rect_def)
          with x w y h show ?thesis by (simp add: clip_def)
        qed
      qed
    qed
  qed
qed

lemma opaque_chain_c_rect:
  "opaque_chain hk gs r c = (res, (good, r'), c') \<Longrightarrow> c_rect r \<Longrightarrow> c_rect r'"
proof (induction gs arbitrary: r c)
  case Nil
  then show ?case by simp
next
  case (Cons g gs)
  from Cons.prems(2) have cl: "c_rect (clip r (postrot_rect g))" by (rule clip_c_rect)
  show ?case
  proof (cases "opaque_in hk g (clip r (postrot_rect g))")
    case (Inl e)
    with Cons.prems(1) cl show ?thesis by (simp add: Let_def)
  next
    case (Inr tmp)
    show ?thesis
    proof (cases "rw (clip r (postrot_rect g)) > 0 \<and> rh (clip r (postrot_rect g)) > 0 \<and> tmp")
      case True
      with Cons.prems(1) Inr
      have "opaque_chain hk gs (clip r (postrot_rect g))
          (c @ [OpaqueIn g (clip r (postrot_rect g))]) = (res, (good, r'), c')"
        by (simp add: Let_def)
      from Cons.IH [OF this cl] show ?thesis .
    next
      case False
      with Cons.prems(1) Inr cl show ?thesis by (auto simp add: Let_def)
    qed
  qed
qed

lemma layer_opaque_c_rect:
  "layer_opaque hk gs ds c = (res, l, c') \<Longrightarrow> \<forall>d \<in> set ds. c_rect d \<Longrightarrow> \<forall>x \<in> set l. c_rect x"
proof (induction ds arbitrary: c res l c')
  case Nil
  then show ?case by simp
next
  case (Cons d ds)
  obtain r1 good r' c1 where oc: "opaque_chain hk gs d c = (r1, (good, r'), c1)"
    by (cases "opaque_chain hk gs d c") auto
  from Cons.prems(2) have d: "c_rect d" and ds: "\<forall>d \<in> set ds. c_rect d" by simp_all
  from opaque_chain_c_rect [OF oc d] have r': "c_rect r'" .
  show ?case
  proof (cases r1)
    case (Some e)
    with Cons.prems(1) oc show ?thesis by simp
  next
    case None
    obtain r2 l2 c2 where lo: "layer_opaque hk gs ds c1 = (r2, l2, c2)"
      by (cases "layer_opaque hk gs ds c1") auto
    from Cons.IH [OF lo ds] have "\<forall>x \<in> set l2. c_rect x" .
    with Cons.prems(1) oc None lo r' show ?thesis by (auto split: if_splits)
  qed
qed

lemma opaque_of_c_rect:
  assumes "\<forall>d \<in> set ds. c_rect d"
  shows "\<forall>x \<in> set (opaque_of hk gs ds). c_rect x"
proof -
  obtain res l c' where "layer_opaque hk gs ds [] = (res, l, c')"
    by (cases "layer_opaque hk gs ds []") auto
  from layer_opaque_c_rect [OF this assms] this show ?thesis by (simp add: opaque_of_def)
qed

lemma cull_layers_ok:
  "cull hk graphics dirty dop c = (None, dbl, c') \<Longrightarrow> j < length graphics \<Longrightarrow>
   fst (layer_opaque hk (graphics ! j) dirty []) = None"
proof (induction graphics arbitrary: dop c dbl c' j)
  case Nil
  then show ?case by simp
next
  case (Cons gs graphics)
  obtain r1 l c1 where lo: "layer_opaque hk gs dirty c = (r1, l, c1)"
    by (cases "layer_opaque hk gs dirty c") auto
  with Cons.prems(1) have r1: "r1 = None" by (cases r1) auto
  obtain r2 dbl2 c2 where cu: "cull hk graphics dirty (dop @ l) c1 = (r2, dbl2, c2)"
    by (cases "cull hk graphics dirty (dop @ l) c1") auto
  with Cons.prems(1) lo r1 have eq: "r2 = None" by auto
  show ?case
  proof (cases j)
    case 0
    from lo r1 have "fst (layer_opaque hk gs dirty []) = None"
      by (subst (asm) layer_opaque_calls) (auto split: prod.splits)
    with 0 show ?thesis by simp
  next
    case (Suc j')
    with Cons.prems(2) have "j' < length graphics" by simp
    from Cons.IH [OF _ this, of "dop @ l" c1 dbl2 c2] cu eq
    show ?thesis by (simp add: Suc)
  qed
qed

lemma opaque_of_member:
  assumes "fst (layer_opaque hk gs ds []) = None" and "r \<in> set ds"
    and "chain_result hk gs r = (None, True, r')"
  shows "r' \<in> set (opaque_of hk gs ds)"
proof -
  obtain l c' where "layer_opaque hk gs ds [] = (None, l, c')"
    using assms(1) by (cases "layer_opaque hk gs ds []") auto
  from layer_opaque_member [OF this assms(2,3)] this show ?thesis
    by (simp add: opaque_of_def)
qed

text \<open>
  Claim C9.  For a layer with no graphic the loop over the graphics does not run,
  \<open>r_good\<close> stays 1 and every dirty rectangle goes into \<open>l_dirty_opaque\<close> as it is; the
  entry of \<open>dirty_by_layer\<close> of every later layer is then the empty list.
\<close>

theorem empty_layer_opaque:
  assumes "cull hk graphics dirty dop c = (None, dbl, c')" and "i < j" and "j < length graphics"
    and "graphics ! i = []"
  shows "layer_opaque hk (graphics ! i) dirty c0 = (None, dirty, c0) \<and> dbl ! j = []"
proof -
  from assms(2,3) have "graphics ! i \<in> set (take j graphics)"
    by (auto simp: in_set_conv_nth intro!: exI [of _ i])
  with assms(4) have "[] \<in> set (take j graphics)" by simp
  then have "set dirty \<subseteq> set (dop @ concat (map (\<lambda>gs. opaque_of hk gs dirty) (take j graphics)))"
    using opaque_of_empty_layer [of hk dirty] by force
  from mk_disjoint_subset_empty [OF this] cull_nth [OF assms(1,3)]
  have "dbl ! j = []" by simp
  with assms(4) show ?thesis by (simp add: layer_opaque_empty_layer)
qed

theorem empty_layer_opaque_witness:
  "fst (cull ex_clear_hooks [[ex_shown], [], [ex_top]] [Rect 2 2 3 3] [] []) = None \<and>
   fst (snd (cull ex_clear_hooks [[ex_shown], [], [ex_top]] [Rect 2 2 3 3] [] [])) =
     [[Rect 2 2 3 3], [Rect 2 2 3 3], []] \<and>
   layer_opaque ex_clear_hooks [] [Rect 2 2 3 3] [] = (None, [Rect 2 2 3 3], [])"
proof -
  let ?c = "cull ex_clear_hooks [[ex_shown], [], [ex_top]] [Rect 2 2 3 3] [] []"
  have ev: "fst ?c = None" "fst (snd ?c) = [[Rect 2 2 3 3], [Rect 2 2 3 3], []]"
    by code_simp+
  then have h: "?c = (None, fst (snd ?c), snd (snd ?c))"
    by (simp add: prod_eq_iff)
  have i: "(1::nat) < 2" "2 < length [[ex_shown], [], [ex_top]]"
    "[[ex_shown], [], [ex_top]] ! 1 = []"
    by simp_all
  from empty_layer_opaque [OF h i, of "[]"] ev show ?thesis by simp
qed

lemma clip_inside: "nondegenerate r \<Longrightarrow> inside r b \<Longrightarrow> clip r b = r"
  by (simp add: clip_def clip_lo_def clip_len_def nondegenerate_def inside_def Rect_def)

lemma chain_all_opaque:
  assumes "nondegenerate r"
    and "\<forall>g \<in> set gs. inside r (postrot_rect g) \<and> opaque_in hk g r = Inr True"
  shows "chain_result hk gs r = (None, True, r)"
proof -
  have "\<exists>evs. opaque_chain hk gs r c = (None, (True, r), evs)" for c
    using assms(2)
  proof (induction gs arbitrary: c)
    case Nil
    then show ?case by simp
  next
    case (Cons g gs)
    then have "clip r (postrot_rect g) = r" "opaque_in hk g r = Inr True"
      using assms(1) by (simp_all add: clip_inside)
    moreover from assms(1) have "rw r > 0 \<and> rh r > 0" by (simp add: nondegenerate_def)
    moreover from Cons have "\<exists>evs. opaque_chain hk gs r (c @ [OpaqueIn g r]) = (None, (True, r), evs)"
      by simp
    ultimately show ?case by (simp add: Let_def)
  qed
  then obtain evs where "opaque_chain hk gs r [] = (None, (True, r), evs)" by blast
  then show ?thesis by (simp add: chain_result_def)
qed

text \<open>
  Claim C2, as stated, fails.  The dirty rectangle \<open>(0, 0, 10, 10)\<close> lies within the
  first graphic of layer 0, whose predicate is true on it; the second graphic of that
  layer is elsewhere, the running clip becomes empty there and the rectangle is not
  taken as opaque.  It is in the entry of layer 1.
\<close>

theorem one_opaque_graphic_counterexample:
  "inside (Rect 0 0 10 10) (postrot_rect ex_clean) \<and>
   clip (Rect 0 0 10 10) (postrot_rect ex_clean) = Rect 0 0 10 10 \<and>
   opaque_in ex_hooks ex_clean (Rect 0 0 10 10) = Inr True \<and>
   fst (collect ex_hooks [[ex_clean, ex_far], [ex_top]] ([Rect 0 0 10 10], [])) = None \<and>
   fst (snd (snd (collect ex_hooks [[ex_clean, ex_far], [ex_top]] ([Rect 0 0 10 10], [])))) =
     [Rect 0 0 10 10] \<and>
   fst (cull ex_hooks [[ex_clean, ex_far], [ex_top]] [Rect 0 0 10 10] [] []) = None \<and>
   fst (snd (cull ex_hooks [[ex_clean, ex_far], [ex_top]] [Rect 0 0 10 10] [] [])) =
     [[Rect 0 0 10 10], [Rect 0 0 10 10]]"
  by code_simp

text \<open>
  Claim C2, amended.  For dirty rectangles whose fields and edges are values of \<open>int\<close>, a
  dirty rectangle that lies within the bounding rectangle of every graphic of layer \<open>i\<close>,
  with the predicate of each of them true on it, overlaps no rectangle of the entry of
  a later layer \<open>j\<close>.
\<close>

theorem opaque_layer_hides:
  assumes "cull hk graphics dirty [] c = (None, dbl, c')" and "i < j" and "j < length graphics"
    and "r \<in> set dirty"
    and "\<forall>g \<in> set (graphics ! i). inside r (postrot_rect g) \<and> opaque_in hk g r = Inr True"
    and cr: "\<forall>d \<in> set dirty. c_rect d"
  shows "\<forall>q \<in> set (dbl ! j). \<not> overlap q r"
proof (cases "nondegenerate r")
  case False
  then have "\<not> covers r p" for p by (auto simp: nondegenerate_def covers_def)
  then show ?thesis by (simp add: overlap_covers)
next
  case True
  let ?rm = "concat (map (\<lambda>gs. opaque_of hk gs dirty) (take j graphics))"
  from assms(2,3) have i: "i < length graphics" by simp
  from chain_all_opaque [OF True assms(5)]
  have "chain_result hk (graphics ! i) r = (None, True, r)" .
  from opaque_of_member [OF cull_layers_ok [OF assms(1) i] assms(4) this]
  have "r \<in> set (opaque_of hk (graphics ! i) dirty)" .
  moreover from assms(2,3) have "graphics ! i \<in> set (take j graphics)"
    by (auto simp: in_set_conv_nth intro!: exI [of _ i])
  ultimately have r: "r \<in> set ?rm"
    by auto
  from cull_nth [OF assms(1,3)]
  have d: "dbl ! j = mk_disjoint dirty ?rm"
    by simp
  have c: "\<forall>x \<in> set dirty \<union> set ?rm. c_rect x"
    using cr opaque_of_c_rect [OF cr] by auto
  let ?e0 = "quicksort (fst (get_edges dirty ?rm))" and ?e1 = "quicksort (snd (get_edges dirty ?rm))"
  show ?thesis
  proof
    fix q assume q: "q \<in> set (dbl ! j)"
    show "\<not> overlap q r"
    proof
      assume o: "overlap q r"
      then obtain p where p: "covers q p" "covers r p" by (auto simp: overlap_covers)
      from o have "nondegenerate q" by (rule overlap_nondegenerate)
      with mk_disjoint_run_or_degenerate [OF c, of q] q
      have "q \<in> set (emit_rows ?e0 ?e1 (mk_grid ?e0 ?e1 dirty ?rm))"
        by (simp add: d)
      with p(1) have "\<exists>x \<in> set (emit_rows ?e0 ?e1 (mk_grid ?e0 ?e1 dirty ?rm)). covers x p"
        by blast
      then have "\<not> (\<exists>b \<in> set ?rm. nondegenerate b \<and> covers b p)"
        unfolding grid_covers [OF grid_ok_edges [OF c]] by blast
      with r True p(2) show False by blast
    qed
  qed
qed

theorem opaque_layer_hides_witness:
  "fst (cull ex_hooks [[ex_clean, ex_shown], [ex_top]] [Rect 1 1 3 3, Rect 30 30 5 5] [] []) = None \<and>
   fst (snd (cull ex_hooks [[ex_clean, ex_shown], [ex_top]] [Rect 1 1 3 3, Rect 30 30 5 5] [] [])) =
     [[Rect 1 1 3 3, Rect 30 30 5 5], [Rect 30 30 5 5]] \<and>
   inside (Rect 1 1 3 3) (postrot_rect ex_clean) \<and>
   inside (Rect 1 1 3 3) (postrot_rect ex_shown) \<and>
   c_rect (Rect 1 1 3 3) \<and> c_rect (Rect 30 30 5 5) \<and>
   \<not> overlap (Rect 30 30 5 5) (Rect 1 1 3 3)"
proof -
  let ?c = "cull ex_hooks [[ex_clean, ex_shown], [ex_top]] [Rect 1 1 3 3, Rect 30 30 5 5] [] []"
  have ev: "fst ?c = None"
    "fst (snd ?c) = [[Rect 1 1 3 3, Rect 30 30 5 5], [Rect 30 30 5 5]]"
    by code_simp+
  then have h: "?c = (None, fst (snd ?c), snd (snd ?c))"
    by (simp add: prod_eq_iff)
  have i: "(0::nat) < 1" "1 < length [[ex_clean, ex_shown], [ex_top]]"
    "Rect 1 1 3 3 \<in> set [Rect 1 1 3 3, Rect 30 30 5 5]"
    by simp_all
  have ins: "inside (Rect 1 1 3 3) (postrot_rect ex_clean)"
    "inside (Rect 1 1 3 3) (postrot_rect ex_shown)"
    by (simp_all add: inside_def Rect_def ex_clean_def ex_shown_def)
  then have g: "\<forall>g \<in> set ([[ex_clean, ex_shown], [ex_top]] ! 0).
      inside (Rect 1 1 3 3) (postrot_rect g) \<and> opaque_in ex_hooks g (Rect 1 1 3 3) = Inr True"
    by (simp add: ex_hooks_def)
  have cs: "c_rect (Rect 1 1 3 3)" "c_rect (Rect 30 30 5 5)"
    by (simp_all add: c_rect_def int_ok_def Rect_def)
  then have cr: "\<forall>d \<in> set [Rect 1 1 3 3, Rect 30 30 5 5]. c_rect d" by simp
  from opaque_layer_hides [OF h i g cr] ev ins cs show ?thesis by simp
qed

end
